theory Spec2Isabelle
  imports Complex_Main "HOL-Library.Sublist"
begin

section \<open>JViewPro: the JSON exploration engine\<close>

text \<open>
  A shallow embedding of the logic-bearing functions of the viewer:
  \<^item> \<^verbatim>\<open>src/app/page.tsx\<close> (second half, the module \<^verbatim>\<open>@/lib/json-parser\<close>):
    \<^verbatim>\<open>parseJsonString\<close>, \<^verbatim>\<open>isValidJsonSyntax\<close>, \<^verbatim>\<open>analyzeJsonStructure\<close>, \<^verbatim>\<open>getJsonType\<close>,
    \<^verbatim>\<open>extractJsonPaths\<close>, \<^verbatim>\<open>searchInJson\<close>;
  \<^item> \<^verbatim>\<open>src/components/json-tree-view.tsx\<close>: \<^verbatim>\<open>JsonTreeNode\<close>, \<^verbatim>\<open>JsonTreeView\<close> with its
    search, its cursor navigation and its path splitting.

  Conventions. A JavaScript string is a \<^typ>\<open>string\<close>. Counters, depths and indices are
  natural numbers; the search cursor, which takes the value \<open>-1\<close>, is an \<^typ>\<open>int\<close>. The two
  budgets \<^verbatim>\<open>maxDepth\<close> and \<^verbatim>\<open>maxNodes\<close> are natural numbers in the main development;
  the analyzer is also given with budgets that are arbitrary finite numbers, which the
  source does not exclude. A thrown exception is the \<open>Inl\<close> of a sum.
\<close>

subsection \<open>Strings\<close>

text \<open>
  The decimal digits of a natural number: the text of an array index in a path, as the
  template expressions print it.
\<close>

fun digits :: "nat \<Rightarrow> string" where
  "digits n =
     (if n < 10 then [''0123456789'' ! n]
      else digits (n div 10) @ [''0123456789'' ! (n mod 10)])"

declare digits.simps [simp del]

text \<open>\<^verbatim>\<open>s.includes(t)\<close>: \<open>t\<close> occurs in \<open>s\<close> as a contiguous substring.\<close>

fun str_includes :: "string \<Rightarrow> string \<Rightarrow> bool" where
  "str_includes [] t = (t = [])"
| "str_includes (c # s) t = (prefix t (c # s) \<or> str_includes s t)"

text \<open>
  \<^verbatim>\<open>trim\<close> removes white space and line terminators at both ends. Of these, the
  characters below 256 are tab, line feed, vertical tab, form feed, carriage return,
  space and the no-break space.
\<close>

definition isWhiteSpace :: "char \<Rightarrow> bool" where
  "isWhiteSpace c =
     (c \<in> set [CHR 0x09, CHR 0x0A, CHR 0x0B, CHR 0x0C, CHR 0x0D, CHR 0x20, CHR 0xA0])"

definition trim :: "string \<Rightarrow> string" where
  "trim s = rev (dropWhile isWhiteSpace (rev (dropWhile isWhiteSpace s)))"

text \<open>
  A JavaScript number is a double: a finite one, taken as the rational number it
  denotes, one of the two infinities (\<^verbatim>\<open>JSON.parse\<close> returns \<^verbatim>\<open>Infinity\<close> for a literal
  that overflows, such as \<^verbatim>\<open>1e999\<close>), or \<^verbatim>\<open>NaN\<close>.
\<close>

datatype number = Num rat | PosInfinity | NegInfinity | NaN

text \<open>
  The two string functions of the language that the searches call and whose tables
  (the case mapping of Unicode, the shortest decimal or exponent notation of a double)
  are not part of the repository: \<^verbatim>\<open>s.toLowerCase()\<close>, and \<^verbatim>\<open>String(n)\<close> for a number.
  They are parameters of the searches; a statement about a search holds for every
  runtime.
\<close>

record runtime =
  toLowerCase :: "string \<Rightarrow> string"
  String_number :: "number \<Rightarrow> string"

text \<open>
  The runtime with which the examples are evaluated. It is JavaScript's on the strings
  and numbers of the examples: it folds the letters A to Z, which is \<^verbatim>\<open>toLowerCase\<close> on a
  string whose letters are ASCII, and it prints an integer in decimal notation, which is
  \<^verbatim>\<open>String(n)\<close> for an integer of magnitude below \<open>10\<^sup>2\<^sup>1\<close>.
\<close>

definition asciiLowerChar :: "char \<Rightarrow> char" where
  "asciiLowerChar c =
     (case map_of (zip ''ABCDEFGHIJKLMNOPQRSTUVWXYZ'' ''abcdefghijklmnopqrstuvwxyz'') c of
        Some l \<Rightarrow> l
      | None \<Rightarrow> c)"

definition decimal :: "number \<Rightarrow> string" where
  "decimal n =
     (case n of
        Num q \<Rightarrow> (if q < 0 then ''-'' @ digits (nat \<lfloor>- q\<rfloor>) else digits (nat \<lfloor>q\<rfloor>))
      | PosInfinity \<Rightarrow> ''Infinity''
      | NegInfinity \<Rightarrow> ''-Infinity''
      | NaN \<Rightarrow> ''NaN'')"

definition exampleRuntime :: runtime where
  "exampleRuntime = \<lparr>toLowerCase = map asciiLowerChar, String_number = decimal\<rparr>"

subsection \<open>JSON values\<close>

text \<open>
  The value that \<^verbatim>\<open>JSON.parse\<close> returns is a tree. The members of an object are listed
  in the order in which \<^verbatim>\<open>Object.keys\<close> and \<^verbatim>\<open>for ... in\<close> enumerate them.
\<close>

datatype json =
    JNull
  | JBool bool
  | JNum number
  | JStr string
  | JArr "json list"
  | JObj "(string \<times> json) list"

text \<open>\<^verbatim>\<open>getJsonType\<close> (\<^verbatim>\<open>page.tsx\<close> lines 616-624), in the order of its tests.\<close>

fun getJsonType :: "json \<Rightarrow> string" where
  "getJsonType JNull = ''null''"
| "getJsonType (JArr xs) = ''array''"
| "getJsonType (JObj kvs) = ''object''"
| "getJsonType (JStr s) = ''string''"
| "getJsonType (JNum n) = ''number''"
| "getJsonType (JBool b) = ''boolean''"

text \<open>
  \<^verbatim>\<open>String(v)\<close>. An array is the join of its elements with commas, where \<^verbatim>\<open>null\<close> counts
  as the empty string; an object is \<^verbatim>\<open>[object Object]\<close>.
\<close>

fun jsString :: "runtime \<Rightarrow> json \<Rightarrow> string"
  and jsJoin :: "runtime \<Rightarrow> json list \<Rightarrow> string"
where
  "jsString rt JNull = ''null''"
| "jsString rt (JBool b) = (if b then ''true'' else ''false'')"
| "jsString rt (JNum n) = String_number rt n"
| "jsString rt (JStr s) = s"
| "jsString rt (JArr xs) = jsJoin rt xs"
| "jsString rt (JObj kvs) = ''[object Object]''"
| "jsJoin rt [] = []"
| "jsJoin rt [x] = (if x = JNull then [] else jsString rt x)"
| "jsJoin rt (x # y # rest) =
     (if x = JNull then [] else jsString rt x) @ '','' @ jsJoin rt (y # rest)"


text \<open>
  The number of nodes of a document, as the specification counts them: every value,
  the root and every leaf included.
\<close>

fun nodeTotal :: "json \<Rightarrow> nat"
  and nodeTotalItems :: "json list \<Rightarrow> nat"
  and nodeTotalMembers :: "(string \<times> json) list \<Rightarrow> nat"
where
  "nodeTotal (JArr xs) = 1 + nodeTotalItems xs"
| "nodeTotal (JObj kvs) = 1 + nodeTotalMembers kvs"
| "nodeTotal v = 1"
| "nodeTotalItems [] = 0"
| "nodeTotalItems (x # xs) = nodeTotal x + nodeTotalItems xs"
| "nodeTotalMembers [] = 0"
| "nodeTotalMembers ((k, v) # kvs) = nodeTotal v + nodeTotalMembers kvs"

subsection \<open>Path rendering\<close>

text \<open>
  The two template expressions with which every traversal of the repository extends
  the path of a parent (\<^verbatim>\<open>page.tsx\<close> lines 660, 666, 699, 704 and
  \<^verbatim>\<open>json-tree-view.tsx\<close> lines 139, 157, 357, 362):
  \<^verbatim>\<open>currentPath ? `${currentPath}[${index}]` : `[${index}]`\<close> and
  \<^verbatim>\<open>currentPath ? `${currentPath}.${key}` : key\<close>.
\<close>

definition indexPath :: "string \<Rightarrow> nat \<Rightarrow> string" where
  "indexPath currentPath index =
     (if currentPath \<noteq> [] then currentPath @ ''['' @ digits index @ '']''
      else ''['' @ digits index @ '']'')"

definition keyPath :: "string \<Rightarrow> string \<Rightarrow> string" where
  "keyPath currentPath key =
     (if currentPath \<noteq> [] then currentPath @ ''.'' @ key else key)"

text \<open>
  \<^verbatim>\<open>extractJsonPaths\<close> (\<^verbatim>\<open>page.tsx\<close> lines 653-676). The array \<^verbatim>\<open>paths\<close> that the inner
  function pushes to is threaded through; the two \<^verbatim>\<open>forEach\<close> loops are the functions
  \<open>extract_items\<close> (with the running index) and \<open>extract_members\<close>.
\<close>

fun extract_traverse :: "json \<Rightarrow> string \<Rightarrow> string list \<Rightarrow> string list"
  and extract_items :: "json list \<Rightarrow> nat \<Rightarrow> string \<Rightarrow> string list \<Rightarrow> string list"
  and extract_members :: "(string \<times> json) list \<Rightarrow> string \<Rightarrow> string list \<Rightarrow> string list"
where
  "extract_traverse (JArr xs) currentPath paths = extract_items xs 0 currentPath paths"
| "extract_traverse (JObj kvs) currentPath paths = extract_members kvs currentPath paths"
| "extract_traverse JNull currentPath paths = paths"
| "extract_traverse (JBool b) currentPath paths = paths"
| "extract_traverse (JNum n) currentPath paths = paths"
| "extract_traverse (JStr s) currentPath paths = paths"
| "extract_items [] index currentPath paths = paths"
| "extract_items (item # rest) index currentPath paths =
     (let path = indexPath currentPath index in
      extract_items rest (index + 1) currentPath
        (extract_traverse item path (paths @ [path])))"
| "extract_members [] currentPath paths = paths"
| "extract_members ((key, v) # rest) currentPath paths =
     (let path = keyPath currentPath key in
      extract_members rest currentPath
        (extract_traverse v path (paths @ [path])))"

definition extractJsonPaths :: "json \<Rightarrow> string list" where
  "extractJsonPaths data = extract_traverse data [] []"

text \<open>
  A path as the list of its segments, and its rendering by the two expressions above,
  applied from the root downwards.
\<close>

datatype segment = Key string | Index nat

fun renderFrom :: "string \<Rightarrow> segment list \<Rightarrow> string" where
  "renderFrom currentPath [] = currentPath"
| "renderFrom currentPath (Key k # segs) = renderFrom (keyPath currentPath k) segs"
| "renderFrom currentPath (Index i # segs) = renderFrom (indexPath currentPath i) segs"

definition renderPath :: "segment list \<Rightarrow> string" where
  "renderPath segs = renderFrom [] segs"

text \<open>
  The positions of a document below its root, each as its list of segments, in the order
  in which \<^verbatim>\<open>extractJsonPaths\<close> reaches them.
\<close>

fun positions :: "json \<Rightarrow> segment list list"
  and positionsItems :: "json list \<Rightarrow> nat \<Rightarrow> segment list list"
  and positionsMembers :: "(string \<times> json) list \<Rightarrow> segment list list"
where
  "positions (JArr xs) = positionsItems xs 0"
| "positions (JObj kvs) = positionsMembers kvs"
| "positions v = []"
| "positionsItems [] i = []"
| "positionsItems (x # xs) i =
     [Index i] # map ((#) (Index i)) (positions x) @ positionsItems xs (i + 1)"
| "positionsMembers [] = []"
| "positionsMembers ((k, v) # kvs) =
     [Key k] # map ((#) (Key k)) (positions v) @ positionsMembers kvs"

text \<open>The text of one segment: the key itself, or the index in decimal.\<close>

fun segmentText :: "segment \<Rightarrow> string" where
  "segmentText (Key k) = k"
| "segmentText (Index i) = digits i"

text \<open>
  \<^verbatim>\<open>path.split(/[.\[\]]/).filter(Boolean)\<close> (\<^verbatim>\<open>json-tree-view.tsx\<close> lines 182 and 381):
  \<open>splitOn\<close> cuts at every delimiter and keeps the empty fragments, as \<^verbatim>\<open>split\<close> does;
  the filter then drops them.
\<close>

definition isDelimiter :: "char \<Rightarrow> bool" where
  "isDelimiter c = (c = CHR ''.'' \<or> c = CHR ''['' \<or> c = CHR '']'')"

fun splitOn :: "(char \<Rightarrow> bool) \<Rightarrow> string \<Rightarrow> string list" where
  "splitOn p [] = [[]]"
| "splitOn p (c # cs) =
     (if p c then [] # splitOn p cs
      else case splitOn p cs of
             [] \<Rightarrow> [[c]]
           | f # fs \<Rightarrow> (c # f) # fs)"

definition pathParts :: "string \<Rightarrow> string list" where
  "pathParts path = filter (\<lambda>part. part \<noteq> []) (splitOn isDelimiter path)"

text \<open>
  The hypothesis of the round trip, as a function on the segment list: every key is
  non-empty and has no delimiter in it.
\<close>

fun plainKeys :: "segment list \<Rightarrow> bool" where
  "plainKeys [] = True"
| "plainKeys (Key k # segs) = (k \<noteq> [] \<and> list_all (\<lambda>c. \<not> isDelimiter c) k \<and> plainKeys segs)"
| "plainKeys (Index i # segs) = plainKeys segs"

text \<open>The hypothesis as the specification words it: no delimiter in any key.\<close>

fun delimiterFreeKeys :: "segment list \<Rightarrow> bool" where
  "delimiterFreeKeys [] = True"
| "delimiterFreeKeys (Key k # segs) = (list_all (\<lambda>c. \<not> isDelimiter c) k \<and> delimiterFreeKeys segs)"
| "delimiterFreeKeys (Index i # segs) = delimiterFreeKeys segs"

text \<open>The document of the specification's example, \<^verbatim>\<open>{"a":[1,{"b":2}]}\<close>.\<close>

definition exampleDoc :: json where
  "exampleDoc = JObj [(''a'', JArr [JNum (Num 1), JObj [(''b'', JNum (Num 2))]])]"

subsection \<open>Search\<close>

text \<open>A search hit, \<^verbatim>\<open>{path, value, type}\<close>.\<close>

record hit =
  hit_path :: string
  hit_value :: json
  hit_type :: string

text \<open>
  \<^verbatim>\<open>searchInJson\<close> of the library (\<^verbatim>\<open>page.tsx\<close> lines 678-734). The array \<^verbatim>\<open>results\<close> that
  the inner function pushes to is threaded through; \<open>search_items\<close> and \<open>search_members\<close>
  are the two \<^verbatim>\<open>forEach\<close> loops. The first branch of \<^verbatim>\<open>traverse\<close> is taken by arrays and
  objects (\<^verbatim>\<open>obj && typeof obj === 'object'\<close>), the \<^verbatim>\<open>else\<close> branch by every other value,
  \<^verbatim>\<open>null\<close> included.
\<close>

fun search_traverse :: "runtime \<Rightarrow> bool \<Rightarrow> string \<Rightarrow> json \<Rightarrow> string \<Rightarrow> hit list \<Rightarrow> hit list"
  and search_items :: "runtime \<Rightarrow> bool \<Rightarrow> string \<Rightarrow> json list \<Rightarrow> nat \<Rightarrow> string \<Rightarrow> hit list \<Rightarrow> hit list"
  and search_members :: "runtime \<Rightarrow> bool \<Rightarrow> string \<Rightarrow> (string \<times> json) list \<Rightarrow> string \<Rightarrow> hit list \<Rightarrow> hit list"
where
  "search_traverse rt caseSensitive searchTerm (JArr xs) currentPath results =
     search_items rt caseSensitive searchTerm xs 0 currentPath results"
| "search_traverse rt caseSensitive searchTerm (JObj kvs) currentPath results =
     search_members rt caseSensitive searchTerm kvs currentPath results"
| "search_traverse rt caseSensitive searchTerm obj currentPath results =
     (let stringValue = jsString rt obj;
          searchValue = (if caseSensitive then stringValue else toLowerCase rt stringValue)
      in if str_includes searchValue searchTerm
         then results @ [\<lparr>hit_path = currentPath, hit_value = obj, hit_type = getJsonType obj\<rparr>]
         else results)"
| "search_items rt caseSensitive searchTerm [] index currentPath results = results"
| "search_items rt caseSensitive searchTerm (item # rest) index currentPath results =
     (let path = indexPath currentPath index in
      search_items rt caseSensitive searchTerm rest (index + 1) currentPath
        (search_traverse rt caseSensitive searchTerm item path results))"
| "search_members rt caseSensitive searchTerm [] currentPath results = results"
| "search_members rt caseSensitive searchTerm ((key, v) # rest) currentPath results =
     (let path = keyPath currentPath key;
          keyMatch = (if caseSensitive then key else toLowerCase rt key);
          results1 = (if str_includes keyMatch searchTerm
                      then results @ [\<lparr>hit_path = path, hit_value = v, hit_type = getJsonType v\<rparr>]
                      else results)
      in search_members rt caseSensitive searchTerm rest currentPath
           (search_traverse rt caseSensitive searchTerm v path results1))"

definition searchInJson :: "runtime \<Rightarrow> json \<Rightarrow> string \<Rightarrow> bool \<Rightarrow> hit list" where
  "searchInJson rt data query caseSensitive =
     search_traverse rt caseSensitive (if caseSensitive then query else toLowerCase rt query) data [] []"






text \<open>
  \<^verbatim>\<open>searchInJson\<close> of the tree view (\<^verbatim>\<open>json-tree-view.tsx\<close> lines 337-368), a closure over
  the state \<^verbatim>\<open>searchTerm\<close>. \<open>viewMatch\<close> is its two tests on the node itself (lines 340-352),
  with the two pushes to \<^verbatim>\<open>results\<close>.
\<close>

definition viewMatch :: "runtime \<Rightarrow> string \<Rightarrow> json \<Rightarrow> string \<Rightarrow> hit list \<Rightarrow> hit list" where
  "viewMatch rt searchTerm obj path results =
     (let searchLower = toLowerCase rt searchTerm;
          type = getJsonType obj;
          valueStr = toLowerCase rt (jsString rt obj);
          results1 = (if str_includes valueStr searchLower
                      then results @ [\<lparr>hit_path = path, hit_value = obj, hit_type = type\<rparr>]
                      else results)
      in if str_includes (toLowerCase rt path) searchLower
         then results1 @ [\<lparr>hit_path = path, hit_value = obj, hit_type = type\<rparr>]
         else results1)"

text \<open>
  The function returns a pair: the value it returns, and the array \<^verbatim>\<open>results\<close> as it
  leaves it (the recursive calls in the two loops use only the latter). The early
  \<^verbatim>\<open>return []\<close> returns a new empty array and leaves \<^verbatim>\<open>results\<close> alone.
\<close>

fun viewSearch :: "runtime \<Rightarrow> string \<Rightarrow> json \<Rightarrow> string \<Rightarrow> hit list \<Rightarrow> hit list \<times> hit list"
  and viewSearch_members :: "runtime \<Rightarrow> string \<Rightarrow> (string \<times> json) list \<Rightarrow> string \<Rightarrow> hit list \<Rightarrow> hit list"
  and viewSearch_items :: "runtime \<Rightarrow> string \<Rightarrow> json list \<Rightarrow> nat \<Rightarrow> string \<Rightarrow> hit list \<Rightarrow> hit list"
where
  "viewSearch rt searchTerm obj path results =
     (if trim searchTerm = [] then ([], results)
      else
        let results2 = viewMatch rt searchTerm obj path results;
            results3 = (case obj of
                          JObj kvs \<Rightarrow> viewSearch_members rt searchTerm kvs path results2
                        | JArr xs \<Rightarrow> viewSearch_items rt searchTerm xs 0 path results2
                        | _ \<Rightarrow> results2)
        in (results3, results3))"
| "viewSearch_members rt searchTerm [] path results = results"
| "viewSearch_members rt searchTerm ((key, v) # rest) path results =
     (let newPath = (if path \<noteq> [] then path @ ''.'' @ key else key) in
      viewSearch_members rt searchTerm rest path (snd (viewSearch rt searchTerm v newPath results)))"
| "viewSearch_items rt searchTerm [] index path results = results"
| "viewSearch_items rt searchTerm (item # rest) index path results =
     (let newPath = path @ ''['' @ digits index @ '']'' in
      viewSearch_items rt searchTerm rest (index + 1) path
        (snd (viewSearch rt searchTerm item newPath results)))"

text \<open>The call of the effect, \<^verbatim>\<open>searchInJson(data)\<close> (line 372).\<close>

definition runViewSearch :: "runtime \<Rightarrow> string \<Rightarrow> json \<Rightarrow> hit list" where
  "runViewSearch rt searchTerm data = fst (viewSearch rt searchTerm data [] [])"

subsection \<open>Cursor navigation over the hit list\<close>

text \<open>
  \<^verbatim>\<open>json-tree-view.tsx\<close>, lines 399-407. The component state is the hit list
  \<^verbatim>\<open>searchResults\<close> and the cursor \<^verbatim>\<open>currentSearchIndex\<close>; the function returns the new
  cursor (the \<^verbatim>\<open>setCurrentSearchIndex\<close> updater applied to the old one).
\<close>

datatype direction = Next | Prev

definition navigateSearchResults :: "direction \<Rightarrow> 'a list \<Rightarrow> int \<Rightarrow> int" where
  "navigateSearchResults dir searchResults currentSearchIndex =
     (if length searchResults = 0 then currentSearchIndex
      else case dir of
        Next \<Rightarrow>
          (if currentSearchIndex < int (length searchResults) - 1
           then currentSearchIndex + 1 else 0)
      | Prev \<Rightarrow>
          (if currentSearchIndex > 0
           then currentSearchIndex - 1 else int (length searchResults) - 1))"

text \<open>
  Lines 371-375: after every search the effect stores the hits and resets the cursor
  to \<open>0\<close>, or to \<open>-1\<close> when there is no hit.
\<close>

definition resetSearchIndex :: "'a list \<Rightarrow> int" where
  "resetSearchIndex results = (if length results > 0 then 0 else -1)"

text \<open>A sequence of button presses, applied from left to right.\<close>

fun navigateMany :: "direction list \<Rightarrow> 'a list \<Rightarrow> int \<Rightarrow> int" where
  "navigateMany [] searchResults i = i"
| "navigateMany (d # ds) searchResults i =
     navigateMany ds searchResults (navigateSearchResults d searchResults i)"

subsection \<open>The tree view\<close>

text \<open>
  What the tree view shows, one row per rendered \<^verbatim>\<open>JsonTreeNode\<close>: either the row of
  a value with its path, or the row \<^verbatim>\<open>... (N node limit reached)\<close>.
\<close>

datatype row = Row string json | LimitReached

text \<open>
  \<^verbatim>\<open>JsonTreeNode\<close> (\<^verbatim>\<open>json-tree-view.tsx\<close> lines 60-284). The counter object
  \<^verbatim>\<open>nodeCount\<close>, shared by all nodes of one rendering, is threaded through as \<open>current\<close>.

  The two loops of \<^verbatim>\<open>renderChildren\<close> (lines 133-175) create the child elements; they run
  inside the body of the parent, after its own \<^verbatim>\<open>nodeCount.current++\<close>. Creating an
  element \<^verbatim>\<open><JsonTreeNode ... />\<close> does not run the child: React calls the function of
  each child after the parent has returned, in the order of the elements. So the counter
  that the loop condition \<^verbatim>\<open>nodeCount.current < maxNodes\<close> reads does not change while
  the loop runs, and it is during the rendering of the children, one after the other,
  that it grows. Every child element is created with \<^verbatim>\<open>isExpanded={false}\<close>.
\<close>

fun arrayChildren :: "json list \<Rightarrow> nat \<Rightarrow> string \<Rightarrow> nat \<Rightarrow> nat \<Rightarrow> (json \<times> string) list" where
  "arrayChildren [] i path maxNodes current = []"
| "arrayChildren (x # xs) i path maxNodes current =
     (if current < maxNodes
      then (x, path @ ''['' @ digits i @ '']'') # arrayChildren xs (i + 1) path maxNodes current
      else [])"

fun objectChildren :: "(string \<times> json) list \<Rightarrow> string \<Rightarrow> nat \<Rightarrow> nat \<Rightarrow> (json \<times> string) list" where
  "objectChildren [] path maxNodes current = []"
| "objectChildren ((key, v) # kvs) path maxNodes current =
     (if current < maxNodes
      then (v, if path \<noteq> [] then path @ ''.'' @ key else key)
             # objectChildren kvs path maxNodes current
      else [])"

fun hasChildren :: "json \<Rightarrow> bool" where
  "hasChildren (JArr xs) = (length xs > 0)"
| "hasChildren (JObj kvs) = (length kvs > 0)"
| "hasChildren v = False"

fun renderChildren :: "json \<Rightarrow> string \<Rightarrow> nat \<Rightarrow> nat \<Rightarrow> (json \<times> string) list" where
  "renderChildren (JArr xs) path maxNodes current = arrayChildren xs 0 path maxNodes current"
| "renderChildren (JObj kvs) path maxNodes current = objectChildren kvs path maxNodes current"
| "renderChildren v path maxNodes current = []"

text \<open>
  The result is the list of rows of the node and of the children below it, in the
  order of rendering, and the counter afterwards. The recursion ends because an expanded
  node renders children that are not expanded, and those render none.
\<close>

function JsonTreeNode :: "json \<Rightarrow> string \<Rightarrow> bool \<Rightarrow> nat \<Rightarrow> nat \<Rightarrow> row list \<times> nat" where
  "JsonTreeNode data path isExpanded maxNodes current =
     (if current \<ge> maxNodes then ([LimitReached], current)
      else if \<not> isExpanded \<or> \<not> hasChildren data then ([Row path data], current + 1)
      else
        fold (\<lambda>child (rows, n).
                case JsonTreeNode (fst child) (snd child) False maxNodes n of
                  (rows', n') \<Rightarrow> (rows @ rows', n'))
             (renderChildren data path maxNodes (current + 1))
             ([Row path data], current + 1))"
  by pat_completeness auto
termination
  by (relation "measure (\<lambda>(d, p, e, m, c). if e then 1 else 0)") auto

declare JsonTreeNode.simps [simp del]

text \<open>
  \<^verbatim>\<open>JsonTreeView\<close> (lines 286-550): a new counter at 0 for every rendering, and the root
  node with \<^verbatim>\<open>isExpanded={expandedPaths.has('')}\<close>.
\<close>

definition JsonTreeView :: "json \<Rightarrow> string list \<Rightarrow> nat \<Rightarrow> row list" where
  "JsonTreeView data expandedPaths maxNodes =
     fst (JsonTreeNode data [] ([] \<in> set expandedPaths) maxNodes 0)"

text \<open>
  The visible nodes as the specification words them (section 4.5), for a budget that is
  not reached: the root and, for every composite node whose path is in the expansion
  set, its immediate children, recursively, in pre-order.
\<close>

fun specVisible :: "string list \<Rightarrow> json \<Rightarrow> string \<Rightarrow> row list"
  and specVisibleItems :: "string list \<Rightarrow> json list \<Rightarrow> nat \<Rightarrow> string \<Rightarrow> row list"
  and specVisibleMembers :: "string list \<Rightarrow> (string \<times> json) list \<Rightarrow> string \<Rightarrow> row list"
where
  "specVisible expanded v p =
     Row p v #
     (if p \<in> set expanded
      then (case v of JArr xs \<Rightarrow> specVisibleItems expanded xs 0 p
                    | JObj kvs \<Rightarrow> specVisibleMembers expanded kvs p
                    | _ \<Rightarrow> [])
      else [])"
| "specVisibleItems expanded [] i p = []"
| "specVisibleItems expanded (x # xs) i p =
     specVisible expanded x (indexPath p i) @ specVisibleItems expanded xs (i + 1) p"
| "specVisibleMembers expanded [] p = []"
| "specVisibleMembers expanded ((k, v) # kvs) p =
     specVisible expanded v (keyPath p k) @ specVisibleMembers expanded kvs p"

text \<open>Documents of the examples: \<^verbatim>\<open>{"a":[1]}\<close>, and an object with \<open>n\<close> flat keys.\<close>

definition nestedDoc :: json where
  "nestedDoc = JObj [(''a'', JArr [JNum (Num 1)])]"

definition flatDoc :: "nat \<Rightarrow> json" where
  "flatDoc n = JObj (map (\<lambda>i. (''k'' @ digits i, JNum (Num (of_nat i)))) [0..<n])"

subsection \<open>Object graphs\<close>

text \<open>
  \<^verbatim>\<open>analyzeJsonStructure\<close> takes any value and guards itself against cycles with a
  \<^verbatim>\<open>WeakSet\<close> of the objects it has entered, so its argument is modelled as a graph:
  a value is a scalar or a reference to an object of the heap, and an object is an array
  or a plain object whose elements are values again. The address of an object is its
  position in the heap; the identity that the \<^verbatim>\<open>WeakSet\<close> compares is the address.
\<close>

type_synonym addr = nat

datatype jsval = VNull | VBool bool | VNum number | VStr string | VRef addr

datatype jsobj = ArrayObj "jsval list" | PlainObj "(string \<times> jsval) list"

type_synonym heap = "jsobj list"

definition deref :: "heap \<Rightarrow> addr \<Rightarrow> jsobj option" where
  "deref h a = (if a < length h then Some (h ! a) else None)"

text \<open>The exceptions of the host, with their messages.\<close>

datatype js_error = TypeError string | SyntaxError string | RangeError string

fun message :: "js_error \<Rightarrow> string" where
  "message (TypeError m) = m"
| "message (SyntaxError m) = m"
| "message (RangeError m) = m"

text \<open>
  The object graph of a parsed document: every array and object of the tree is an object
  of its own.
\<close>

fun alloc :: "json \<Rightarrow> heap \<Rightarrow> jsval \<times> heap"
  and alloc_items :: "json list \<Rightarrow> heap \<Rightarrow> jsval list \<times> heap"
  and alloc_members :: "(string \<times> json) list \<Rightarrow> heap \<Rightarrow> (string \<times> jsval) list \<times> heap"
where
  "alloc JNull h = (VNull, h)"
| "alloc (JBool b) h = (VBool b, h)"
| "alloc (JNum n) h = (VNum n, h)"
| "alloc (JStr s) h = (VStr s, h)"
| "alloc (JArr xs) h =
     (case alloc_items xs h of (vs, h') \<Rightarrow> (VRef (length h'), h' @ [ArrayObj vs]))"
| "alloc (JObj kvs) h =
     (case alloc_members kvs h of (ms, h') \<Rightarrow> (VRef (length h'), h' @ [PlainObj ms]))"
| "alloc_items [] h = ([], h)"
| "alloc_items (x # xs) h =
     (case alloc x h of (v, h1) \<Rightarrow>
        case alloc_items xs h1 of (vs, h2) \<Rightarrow> (v # vs, h2))"
| "alloc_members [] h = ([], h)"
| "alloc_members ((k, x) # kvs) h =
     (case alloc x h of (v, h1) \<Rightarrow>
        case alloc_members kvs h1 of (ms, h2) \<Rightarrow> ((k, v) # ms, h2))"

subsection \<open>The structural analyzer\<close>

text \<open>
  The three variables that the inner function \<^verbatim>\<open>traverse\<close> of \<^verbatim>\<open>analyzeJsonStructure\<close>
  (\<^verbatim>\<open>page.tsx\<close> lines 565-614) updates.
\<close>

record counters =
  nodeCount :: nat
  depth :: nat
  visited :: "addr set"

text \<open>
  The loop over an array, \<^verbatim>\<open>for (i = 0; i < obj.length && nodeCount < maxNodes; i++)\<close>:
  it stops at the first element at which the condition on the state fails. An exception
  of the body ends the loop.
\<close>

fun forArray ::
  "('s \<Rightarrow> bool) \<Rightarrow> ('a \<Rightarrow> 's \<Rightarrow> js_error + 's) \<Rightarrow> 'a list \<Rightarrow> 's \<Rightarrow> js_error + 's"
where
  "forArray cond body [] s = Inr s"
| "forArray cond body (x # xs) s =
     (if cond s
      then (case body x s of Inl e \<Rightarrow> Inl e | Inr s' \<Rightarrow> forArray cond body xs s')
      else Inr s)"

text \<open>
  The loop over an object,
  \<^verbatim>\<open>for (const key in obj) { if (obj.hasOwnProperty(key) && nodeCount < maxNodes) ... }\<close>:
  it goes through all keys and skips those at which the condition fails. The test calls
  \<^verbatim>\<open>obj.hasOwnProperty\<close>, which is looked up on the object itself first: when the object
  has a member of its own with the key \<^verbatim>\<open>hasOwnProperty\<close> (\<open>shadowed\<close>), that member, a JSON
  value, is what gets called, and the call throws a \<^verbatim>\<open>TypeError\<close> at the first key.
\<close>

fun forIn ::
  "bool \<Rightarrow> ('s \<Rightarrow> bool) \<Rightarrow> ('a \<Rightarrow> 's \<Rightarrow> js_error + 's) \<Rightarrow> 'a list \<Rightarrow> 's \<Rightarrow> js_error + 's"
where
  "forIn shadowed cond body [] s = Inr s"
| "forIn shadowed cond body (x # xs) s =
     (if shadowed then Inl (TypeError ''obj.hasOwnProperty is not a function'')
      else if cond s
      then (case body x s of Inl e \<Rightarrow> Inl e | Inr s' \<Rightarrow> forIn shadowed cond body xs s')
      else forIn shadowed cond body xs s)"

lemma forArray_cong [fundef_cong]:
  "xs = ys \<Longrightarrow> s = t \<Longrightarrow> cond = cond' \<Longrightarrow> (\<And>x u. x \<in> set ys \<Longrightarrow> body x u = body' x u)
   \<Longrightarrow> forArray cond body xs s = forArray cond' body' ys t"
  by (induction ys arbitrary: xs s t) (auto split: sum.splits)

lemma forIn_cong [fundef_cong]:
  "xs = ys \<Longrightarrow> s = t \<Longrightarrow> cond = cond' \<Longrightarrow> sh = sh'
   \<Longrightarrow> (\<And>x u. x \<in> set ys \<Longrightarrow> body x u = body' x u)
   \<Longrightarrow> forIn sh cond body xs s = forIn sh' cond' body' ys t"
  by (induction ys arbitrary: xs s t) (auto split: sum.splits)

definition hasOwn :: "(string \<times> 'v) list \<Rightarrow> string \<Rightarrow> bool" where
  "hasOwn kvs key = (map_of kvs key \<noteq> None)"

text \<open>
  \<^verbatim>\<open>traverse\<close> (lines 579-604). A reference to an address outside the heap cannot occur
  in JavaScript; the model treats it as an object without members.
\<close>

function traverse ::
  "heap \<Rightarrow> nat \<Rightarrow> nat \<Rightarrow> jsval \<Rightarrow> nat \<Rightarrow> counters \<Rightarrow> js_error + counters"
where
  "traverse h maxDepth maxNodes obj currentDepth st =
     (if nodeCount st \<ge> maxNodes then Inr st
      else if currentDepth > maxDepth then Inr st
      else
        let st1 = st\<lparr>nodeCount := nodeCount st + 1, depth := max (depth st) currentDepth\<rparr> in
        case obj of
          VRef a \<Rightarrow>
            if a \<in> visited st1 then Inr st1
            else
              let st2 = st1\<lparr>visited := insert a (visited st1)\<rparr> in
              (case deref h a of
                 Some (ArrayObj xs) \<Rightarrow>
                   forArray (\<lambda>s. nodeCount s < maxNodes)
                     (\<lambda>x s. traverse h maxDepth maxNodes x (currentDepth + 1) s) xs st2
               | Some (PlainObj kvs) \<Rightarrow>
                   forIn (hasOwn kvs ''hasOwnProperty'') (\<lambda>s. nodeCount s < maxNodes)
                     (\<lambda>kv s. traverse h maxDepth maxNodes (snd kv) (currentDepth + 1) s) kvs st2
               | None \<Rightarrow> Inr st2)
        | _ \<Rightarrow> Inr st1)"
  by pat_completeness auto
termination
  by (relation "measure (\<lambda>(h, maxDepth, maxNodes, obj, currentDepth, st).
                   Suc maxDepth - currentDepth)") auto

declare traverse.simps [simp del]

text \<open>\<^verbatim>\<open>getJsonType\<close> on a value of the graph.\<close>

fun getJsonTypeAt :: "heap \<Rightarrow> jsval \<Rightarrow> string" where
  "getJsonTypeAt h VNull = ''null''"
| "getJsonTypeAt h (VRef a) =
     (case deref h a of Some (ArrayObj xs) \<Rightarrow> ''array'' | _ \<Rightarrow> ''object'')"
| "getJsonTypeAt h (VStr s) = ''string''"
| "getJsonTypeAt h (VNum n) = ''number''"
| "getJsonTypeAt h (VBool b) = ''boolean''"

text \<open>
  The result of the analyzer. Line 612 returns \<^verbatim>\<open>hasCircularReferences: false\<close>, with
  the comment "Will be enhanced in future versions".
\<close>

record analysis =
  an_depth :: nat
  an_nodeCount :: nat
  an_type :: string
  hasCircularReferences :: bool

definition analyzeJsonStructure :: "heap \<Rightarrow> jsval \<Rightarrow> nat \<Rightarrow> nat \<Rightarrow> js_error + analysis" where
  "analyzeJsonStructure h data maxDepth maxNodes =
     (case traverse h maxDepth maxNodes data 0 \<lparr>nodeCount = 0, depth = 0, visited = {}\<rparr> of
        Inl e \<Rightarrow> Inl e
      | Inr st \<Rightarrow>
          Inr \<lparr>an_depth = depth st, an_nodeCount = nodeCount st,
               an_type = getJsonTypeAt h data, hasCircularReferences = False\<rparr>)"

text \<open>
  The two budgets are parameters of type \<^verbatim>\<open>number\<close>, and the source does not validate
  them. \<open>traverse_num\<close> is \<^verbatim>\<open>traverse\<close> once more, with budgets that are arbitrary finite
  numbers, taken as rationals: the two guards and the two loop conditions compare a
  counter with the budget as JavaScript compares two numbers. It is shown below to be
  \<open>traverse\<close> at the budgets \<open>\<lfloor>maxDepth\<rfloor>\<close> and \<open>\<lceil>maxNodes\<rceil>\<close> when \<open>maxDepth\<close> is not negative,
  and to return at once when it is. The recursion ends with the measure
  \<open>\<lfloor>maxDepth\<rfloor> + 1 - currentDepth\<close>.
\<close>

lemma depth_measure:
  "\<not> maxDepth < (of_nat currentDepth :: rat) \<Longrightarrow>
   nat \<lfloor>maxDepth\<rfloor> - currentDepth < Suc (nat \<lfloor>maxDepth\<rfloor>) - currentDepth"
proof -
  assume "\<not> maxDepth < of_nat currentDepth"
  then have "int currentDepth \<le> \<lfloor>maxDepth\<rfloor>" by (simp add: le_floor_iff not_less)
  then have "currentDepth \<le> nat \<lfloor>maxDepth\<rfloor>" by linarith
  then show ?thesis by simp
qed

function traverse_num ::
  "heap \<Rightarrow> rat \<Rightarrow> rat \<Rightarrow> jsval \<Rightarrow> nat \<Rightarrow> counters \<Rightarrow> js_error + counters"
where
  "traverse_num h maxDepth maxNodes obj currentDepth st =
     (if of_nat (nodeCount st) \<ge> maxNodes then Inr st
      else if of_nat currentDepth > maxDepth then Inr st
      else
        let st1 = st\<lparr>nodeCount := nodeCount st + 1, depth := max (depth st) currentDepth\<rparr> in
        case obj of
          VRef a \<Rightarrow>
            if a \<in> visited st1 then Inr st1
            else
              let st2 = st1\<lparr>visited := insert a (visited st1)\<rparr> in
              (case deref h a of
                 Some (ArrayObj xs) \<Rightarrow>
                   forArray (\<lambda>s. of_nat (nodeCount s) < maxNodes)
                     (\<lambda>x s. traverse_num h maxDepth maxNodes x (currentDepth + 1) s) xs st2
               | Some (PlainObj kvs) \<Rightarrow>
                   forIn (hasOwn kvs ''hasOwnProperty'') (\<lambda>s. of_nat (nodeCount s) < maxNodes)
                     (\<lambda>kv s. traverse_num h maxDepth maxNodes (snd kv) (currentDepth + 1) s) kvs st2
               | None \<Rightarrow> Inr st2)
        | _ \<Rightarrow> Inr st1)"
  by pat_completeness auto
termination
  by (relation "measure (\<lambda>(h, maxDepth, maxNodes, obj, currentDepth, st).
                   Suc (nat \<lfloor>maxDepth\<rfloor>) - currentDepth)")
     (simp_all add: depth_measure)

declare traverse_num.simps [simp del]

definition analyzeJsonStructure_num :: "heap \<Rightarrow> jsval \<Rightarrow> rat \<Rightarrow> rat \<Rightarrow> js_error + analysis" where
  "analyzeJsonStructure_num h data maxDepth maxNodes =
     (case traverse_num h maxDepth maxNodes data 0 \<lparr>nodeCount = 0, depth = 0, visited = {}\<rparr> of
        Inl e \<Rightarrow> Inl e
      | Inr st \<Rightarrow>
          Inr \<lparr>an_depth = depth st, an_nodeCount = nodeCount st,
               an_type = getJsonTypeAt h data, hasCircularReferences = False\<rparr>)"

text \<open>The analyzer on a parsed document.\<close>

definition analyzeTree :: "json \<Rightarrow> nat \<Rightarrow> nat \<Rightarrow> js_error + analysis" where
  "analyzeTree data maxDepth maxNodes =
     (case alloc data [] of (v, h) \<Rightarrow> analyzeJsonStructure h v maxDepth maxNodes)"

text \<open>
  A heap is shadowed when one of its plain objects has a member with the key
  \<^verbatim>\<open>hasOwnProperty\<close>.
\<close>

definition shadowedHeap :: "heap \<Rightarrow> bool" where
  "shadowedHeap h =
     list_ex (\<lambda>ob. case ob of PlainObj kvs \<Rightarrow> hasOwn kvs ''hasOwnProperty'' | ArrayObj xs \<Rightarrow> False) h"

text \<open>
  Two runs of the traversal with the budgets \<open>m\<close> and \<open>m'\<close>, \<open>m \<le> m'\<close>, are compared through
  the relation \<open>agree\<close> between their counters: the run with the smaller budget is within
  it, and either the two runs are in the same state, or the smaller budget is used up and
  the other run has counted at least as many nodes. On the results: an exception of the
  first run is the exception of the second, and the second may throw where the first has
  stopped at its budget.
\<close>

definition agree :: "nat \<Rightarrow> counters \<Rightarrow> counters \<Rightarrow> bool" where
  "agree m s s' = (nodeCount s \<le> m \<and> (s = s' \<or> (nodeCount s = m \<and> m \<le> nodeCount s')))"

definition agreeResult :: "nat \<Rightarrow> js_error + counters \<Rightarrow> js_error + counters \<Rightarrow> bool" where
  "agreeResult m r r' =
     (case r of
        Inl e \<Rightarrow> r' = Inl e
      | Inr s \<Rightarrow> (case r' of Inr s' \<Rightarrow> agree m s s' | Inl e' \<Rightarrow> nodeCount s = m))"

text \<open>
  A document is shadowed when one of its objects has a member with the key
  \<^verbatim>\<open>hasOwnProperty\<close>.
\<close>

fun shadowedDoc :: "json \<Rightarrow> bool"
  and shadowedItems :: "json list \<Rightarrow> bool"
  and shadowedMembers :: "(string \<times> json) list \<Rightarrow> bool"
where
  "shadowedDoc (JArr xs) = shadowedItems xs"
| "shadowedDoc (JObj kvs) = (hasOwn kvs ''hasOwnProperty'' \<or> shadowedMembers kvs)"
| "shadowedDoc v = False"
| "shadowedItems [] = False"
| "shadowedItems (x # xs) = (shadowedDoc x \<or> shadowedItems xs)"
| "shadowedMembers [] = False"
| "shadowedMembers ((k, v) # kvs) = (shadowedDoc v \<or> shadowedMembers kvs)"

text \<open>
  The number of nodes of a document at nesting level at most \<open>maxDepth\<close>, counted from a
  node at level \<open>d\<close>, and the nesting depth of a document (the level of its deepest
  node, the root being at level 0).
\<close>

fun visitCount :: "nat \<Rightarrow> nat \<Rightarrow> json \<Rightarrow> nat"
  and visitCountItems :: "nat \<Rightarrow> nat \<Rightarrow> json list \<Rightarrow> nat"
  and visitCountMembers :: "nat \<Rightarrow> nat \<Rightarrow> (string \<times> json) list \<Rightarrow> nat"
where
  "visitCount maxDepth d (JArr xs) =
     (if d > maxDepth then 0 else 1 + visitCountItems maxDepth (d + 1) xs)"
| "visitCount maxDepth d (JObj kvs) =
     (if d > maxDepth then 0 else 1 + visitCountMembers maxDepth (d + 1) kvs)"
| "visitCount maxDepth d v = (if d > maxDepth then 0 else 1)"
| "visitCountItems maxDepth d [] = 0"
| "visitCountItems maxDepth d (x # xs) = visitCount maxDepth d x + visitCountItems maxDepth d xs"
| "visitCountMembers maxDepth d [] = 0"
| "visitCountMembers maxDepth d ((k, v) # kvs) =
     visitCount maxDepth d v + visitCountMembers maxDepth d kvs"

fun height :: "json \<Rightarrow> nat"
  and heightItems :: "json list \<Rightarrow> nat"
  and heightMembers :: "(string \<times> json) list \<Rightarrow> nat"
where
  "height (JArr xs) = heightItems xs"
| "height (JObj kvs) = heightMembers kvs"
| "height v = 0"
| "heightItems [] = 0"
| "heightItems (x # xs) = max (1 + height x) (heightItems xs)"
| "heightMembers [] = 0"
| "heightMembers ((k, v) # kvs) = max (1 + height v) (heightMembers kvs)"

text \<open>
  For the traversal of the object graph of a parsed document: the addresses from \<open>lo\<close>
  up to \<open>hi\<close> are not yet visited; and a run returns with \<open>n\<close> more nodes counted, having
  visited no address outside these.
\<close>

definition fresh :: "nat \<Rightarrow> nat \<Rightarrow> counters \<Rightarrow> bool" where
  "fresh lo hi st = (visited st \<inter> {lo..<hi} = {})"

definition countsTo :: "nat \<Rightarrow> nat \<Rightarrow> nat \<Rightarrow> counters \<Rightarrow> js_error + counters \<Rightarrow> bool" where
  "countsTo lo hi n st r =
     (\<exists>st'. r = Inr st' \<and> nodeCount st' = nodeCount st + n \<and> visited st' \<subseteq> visited st \<union> {lo..<hi})"

text \<open>The array whose only element is the array itself.\<close>

definition selfArray :: heap where
  "selfArray = [ArrayObj [VRef 0]]"

subsection \<open>The search on an object graph\<close>






text \<open>
  The tree that a value of a graph unfolds to, when it does so within \<open>n\<close> levels:
  there is one when no cycle is reachable from the value and the nesting is less than
  \<open>n\<close> deep, and none, for any \<open>n\<close>, when a cycle is reachable. The object graph of a
  parsed document unfolds to the document.
\<close>

fun unfold :: "nat \<Rightarrow> heap \<Rightarrow> jsval \<Rightarrow> json option"
  and unfold_items :: "nat \<Rightarrow> heap \<Rightarrow> jsval list \<Rightarrow> json list option"
  and unfold_members :: "nat \<Rightarrow> heap \<Rightarrow> (string \<times> jsval) list \<Rightarrow> (string \<times> json) list option"
where
  "unfold 0 h v = None"
| "unfold (Suc n) h VNull = Some JNull"
| "unfold (Suc n) h (VBool b) = Some (JBool b)"
| "unfold (Suc n) h (VNum x) = Some (JNum x)"
| "unfold (Suc n) h (VStr s) = Some (JStr s)"
| "unfold (Suc n) h (VRef a) =
     (case deref h a of
        Some (ArrayObj xs) \<Rightarrow> map_option JArr (unfold_items n h xs)
      | Some (PlainObj kvs) \<Rightarrow> map_option JObj (unfold_members n h kvs)
      | None \<Rightarrow> Some (JObj []))"
| "unfold_items n h [] = Some []"
| "unfold_items n h (x # xs) =
     (case unfold n h x of
        None \<Rightarrow> None
      | Some t \<Rightarrow> map_option ((#) t) (unfold_items n h xs))"
| "unfold_members n h [] = Some []"
| "unfold_members n h ((k, v) # kvs) =
     (case unfold n h v of
        None \<Rightarrow> None
      | Some t \<Rightarrow> map_option ((#) (k, t)) (unfold_members n h kvs))"



subsection \<open>The parser\<close>

text \<open>
  The functions of the host that the parser calls are parameters: \<^verbatim>\<open>JSON.parse\<close>, which
  returns the decoded value or throws a \<^verbatim>\<open>SyntaxError\<close> (\<open>Inl\<close> of its message), and the
  test \<^verbatim>\<open>isNaN(Number(s))\<close>.
\<close>

record host =
  JSON_parse :: "string \<Rightarrow> string + json"
  isNaN_Number :: "string \<Rightarrow> bool"

text \<open>
  \<^verbatim>\<open>JsonParseOptions\<close>: each field may be absent; the destructuring of lines 472-476
  gives the defaults.
\<close>

record options =
  opt_maxDepth :: "nat option"
  opt_maxNodes :: "nat option"
  opt_strict :: "bool option"

definition noOptions :: options where
  "noOptions = \<lparr>opt_maxDepth = None, opt_maxNodes = None, opt_strict = None\<rparr>"

text \<open>
  \<^verbatim>\<open>ParseResult\<close>. The field \<^verbatim>\<open>parseTime\<close>, a difference of two readings of the clock, is
  left out. The field \<^verbatim>\<open>data\<close> is \<^verbatim>\<open>null\<close> until a value is stored in it.
\<close>

record metadata =
  md_size :: nat
  md_depth :: nat
  md_nodeCount :: nat
  md_type :: string
  md_isValid :: bool

record parseResult =
  r_data :: json
  r_metadata :: metadata
  r_errors :: "string list"
  r_warnings :: "string list"

text \<open>\<^verbatim>\<open>isValidJsonSyntax\<close> (lines 531-563).\<close>

definition isValidJsonSyntax :: "host \<Rightarrow> string \<Rightarrow> bool" where
  "isValidJsonSyntax hst jsonString =
     (if jsonString = [] then False
      else
        let trimmed = trim jsonString in
        if trimmed = [] then False
        else
          let firstChar = hd trimmed; lastChar = last trimmed in
          if (firstChar = CHR ''{'' \<and> lastChar = CHR ''}'')
             \<or> (firstChar = CHR ''['' \<and> lastChar = CHR '']'')
             \<or> (firstChar = CHR 0x22 \<and> lastChar = CHR 0x22)
             \<or> trimmed = ''true''
             \<or> trimmed = ''false''
             \<or> trimmed = ''null''
             \<or> \<not> isNaN_Number hst trimmed
          then (case JSON_parse hst trimmed of Inr v \<Rightarrow> True | Inl m \<Rightarrow> False)
          else False)"

text \<open>
  \<^verbatim>\<open>parseJsonString\<close> (lines 467-529). The \<^verbatim>\<open>catch\<close> block receives the \<^verbatim>\<open>SyntaxError\<close> of
  \<^verbatim>\<open>JSON.parse\<close> and whatever \<^verbatim>\<open>analyzeJsonStructure\<close> throws; what was stored in the
  result before the exception stays there.
\<close>

definition depthWarning :: "nat \<Rightarrow> nat \<Rightarrow> string" where
  "depthWarning d maxDepth =
     ''JSON depth ('' @ digits d @ '') exceeds recommended limit ('' @ digits maxDepth @ '')''"

definition nodeWarning :: "nat \<Rightarrow> nat \<Rightarrow> string" where
  "nodeWarning n maxNodes =
     ''Node count ('' @ digits n @ '') exceeds limit ('' @ digits maxNodes @ '')''"

definition parseJsonString :: "host \<Rightarrow> string \<Rightarrow> options \<Rightarrow> parseResult" where
  "parseJsonString hst jsonString opts =
     (let maxDepth = (case opt_maxDepth opts of None \<Rightarrow> 100 | Some d \<Rightarrow> d);
          maxNodes = (case opt_maxNodes opts of None \<Rightarrow> 10000 | Some n \<Rightarrow> n);
          strict = (case opt_strict opts of None \<Rightarrow> False | Some b \<Rightarrow> b);
          result = \<lparr>r_data = JNull,
                    r_metadata = \<lparr>md_size = length jsonString, md_depth = 0, md_nodeCount = 0,
                                  md_type = ''unknown'', md_isValid = False\<rparr>,
                    r_errors = [], r_warnings = []\<rparr>
      in
        if \<not> isValidJsonSyntax hst jsonString
        then result\<lparr>r_errors := r_errors result @ [''Invalid JSON syntax'']\<rparr>
        else
          case JSON_parse hst jsonString of
            Inl m \<Rightarrow> result\<lparr>r_errors := r_errors result @ [''JSON Parse Error: '' @ m]\<rparr>
          | Inr parsed \<Rightarrow>
              let result1 = result\<lparr>r_data := parsed,
                                   r_metadata := (r_metadata result)\<lparr>md_isValid := True\<rparr>\<rparr>
              in
                (case analyzeTree parsed maxDepth maxNodes of
                  Inl e \<Rightarrow>
                    result1\<lparr>r_errors := r_errors result1 @ [''JSON Parse Error: '' @ message e]\<rparr>
                | Inr an \<Rightarrow>
                    let result2 = result1\<lparr>r_metadata := (r_metadata result1)
                                    \<lparr>md_depth := an_depth an, md_nodeCount := an_nodeCount an,
                                     md_type := an_type an\<rparr>\<rparr>;
                        result3 =
                          (if an_depth an > maxDepth
                           then result2\<lparr>r_warnings :=
                                  r_warnings result2 @ [depthWarning (an_depth an) maxDepth]\<rparr>
                           else result2)
                    in
                      if an_nodeCount an > maxNodes
                      then
                        let result4 = result3\<lparr>r_warnings :=
                              r_warnings result3 @ [nodeWarning (an_nodeCount an) maxNodes]\<rparr>
                        in
                          if strict
                          then result4\<lparr>r_errors := r_errors result4 @ [''Too many nodes for processing''],
                                       r_metadata := (r_metadata result4)\<lparr>md_isValid := False\<rparr>\<rparr>
                          else result4
                      else result3))"

text \<open>The three options with their defaults, as the destructuring reads them.\<close>

definition budgetOf :: "options \<Rightarrow> nat \<times> nat \<times> bool" where
  "budgetOf opts =
     ((case opt_maxDepth opts of None \<Rightarrow> 100 | Some d \<Rightarrow> d),
      (case opt_maxNodes opts of None \<Rightarrow> 10000 | Some n \<Rightarrow> n),
      (case opt_strict opts of None \<Rightarrow> False | Some b \<Rightarrow> b))"

text \<open>
  A host for the evaluation of examples: its decoder is given by a finite table of texts
  and the values that \<^verbatim>\<open>JSON.parse\<close> returns for them, and throws on every other text.
\<close>

definition tableHost :: "(string \<times> json) list \<Rightarrow> host" where
  "tableHost table =
     \<lparr>JSON_parse = (\<lambda>s. case map_of table s of
                            Some v \<Rightarrow> Inr v
                          | None \<Rightarrow> Inl ''Unexpected token''),
      isNaN_Number = (\<lambda>s. True)\<rparr>"

text \<open>The texts \<^verbatim>\<open>{"hasOwnProperty":1}\<close> and \<^verbatim>\<open>[1,2]\<close> with their values.\<close>

definition shadowText :: string where
  "shadowText = ''{'' @ [CHR 0x22] @ ''hasOwnProperty'' @ [CHR 0x22] @ '':1}''"

definition shadowDoc :: json where
  "shadowDoc = JObj [(''hasOwnProperty'', JNum (Num 1))]"

definition pairText :: string where
  "pairText = ''[1,2]''"

definition pairDoc :: json where
  "pairDoc = JArr [JNum (Num 1), JNum (Num 2)]"

section \<open>Properties\<close>

subsection \<open>Cursor navigation\<close>

lemma navigate_in_range:
  assumes "searchResults \<noteq> []" "0 \<le> i" "i < int (length searchResults)"
  shows "0 \<le> navigateSearchResults d searchResults i
       \<and> navigateSearchResults d searchResults i < int (length searchResults)"
  using assms by (cases d) (auto simp: navigateSearchResults_def)

lemma navigateMany_empty: "navigateMany ds [] i = i"
  by (induction ds arbitrary: i) (simp_all add: navigateSearchResults_def)

lemma navigateMany_in_range:
  assumes "searchResults \<noteq> []" "0 \<le> i" "i < int (length searchResults)"
  shows "0 \<le> navigateMany ds searchResults i
       \<and> navigateMany ds searchResults i < int (length searchResults)"
  using assms
proof (induction ds arbitrary: i)
  case Nil
  then show ?case by simp
next
  case (Cons d ds)
  from navigate_in_range [OF Cons.prems, of d] Cons.prems(1)
  show ?case by (simp add: Cons.IH)
qed

text \<open>
  Claim C9. With a non-empty hit list and the cursor on a hit, "next" moves the cursor
  forward by one and from the last hit back to index 0, "previous" moves it back by one
  and from index 0 to the last hit, and the cursor stays on a hit. With an empty hit
  list both buttons leave the cursor where the search put it, at \<open>-1\<close>, however often
  they are pressed.
\<close>

theorem navigateSearchResults_cyclic:
  fixes searchResults :: "'a list"
  shows "(searchResults \<noteq> [] \<and> 0 \<le> i \<and> i < int (length searchResults) \<longrightarrow>
            navigateSearchResults Next searchResults i = (i + 1) mod int (length searchResults)
          \<and> navigateSearchResults Prev searchResults i = (i - 1) mod int (length searchResults)
          \<and> navigateSearchResults Next searchResults i =
               (if i = int (length searchResults) - 1 then 0 else i + 1)
          \<and> navigateSearchResults Prev searchResults i =
               (if i = 0 then int (length searchResults) - 1 else i - 1)
          \<and> 0 \<le> navigateMany ds searchResults i
          \<and> navigateMany ds searchResults i < int (length searchResults))
       \<and> (searchResults = [] \<longrightarrow>
            navigateSearchResults d searchResults i = i
          \<and> navigateMany ds searchResults (resetSearchIndex searchResults) = -1)"
proof (intro conjI impI)
  assume a: "searchResults \<noteq> [] \<and> 0 \<le> i \<and> i < int (length searchResults)"
  then have len: "0 < int (length searchResults)" by simp
  show "navigateSearchResults Next searchResults i = (i + 1) mod int (length searchResults)"
  proof (cases "i < int (length searchResults) - 1")
    case True
    with a show ?thesis by (simp add: navigateSearchResults_def)
  next
    case False
    with a have "i + 1 = int (length searchResults)" by linarith
    with a False show ?thesis by (simp add: navigateSearchResults_def)
  qed
  show "navigateSearchResults Prev searchResults i = (i - 1) mod int (length searchResults)"
  proof (cases "i > 0")
    case True
    with a show ?thesis by (simp add: navigateSearchResults_def)
  next
    case False
    with a have i0: "i = 0" by linarith
    have "(-1) mod int (length searchResults) = int (length searchResults) - 1"
      using len by (simp add: zmod_minus1)
    with a i0 show ?thesis by (simp add: navigateSearchResults_def)
  qed
  show "navigateSearchResults Next searchResults i =
          (if i = int (length searchResults) - 1 then 0 else i + 1)"
    using a by (auto simp: navigateSearchResults_def)
  show "navigateSearchResults Prev searchResults i =
          (if i = 0 then int (length searchResults) - 1 else i - 1)"
    using a by (auto simp: navigateSearchResults_def)
  from a navigateMany_in_range [of searchResults i ds]
  show "0 \<le> navigateMany ds searchResults i"
    and "navigateMany ds searchResults i < int (length searchResults)" by simp_all
next
  assume "searchResults = []"
  then show "navigateSearchResults d searchResults i = i"
    by (simp add: navigateSearchResults_def)
next
  assume "searchResults = []"
  then show "navigateMany ds searchResults (resetSearchIndex searchResults) = -1"
    by (simp add: navigateMany_empty resetSearchIndex_def)
qed

text \<open>
  The example of the specification: three hits, cursor at 0; three presses of "next"
  give the cursors 1, 2 and 0. With no hit, "next", "previous", "next" leave \<open>-1\<close>.
\<close>

theorem navigateSearchResults_cyclic_witness:
  "navigateSearchResults Next [''h0'', ''h1'', ''h2''] 0 = 1
 \<and> navigateSearchResults Next [''h0'', ''h1'', ''h2''] 1 = 2
 \<and> navigateSearchResults Next [''h0'', ''h1'', ''h2''] 2 = 0
 \<and> navigateSearchResults Prev [''h0'', ''h1'', ''h2''] 0 = 2
 \<and> navigateMany [Next, Next, Next] [''h0'', ''h1'', ''h2''] (resetSearchIndex [''h0'', ''h1'', ''h2'']) = 0
 \<and> navigateMany [Next, Prev, Next] ([] :: string list) (resetSearchIndex ([] :: string list)) = -1"
  using navigateSearchResults_cyclic [of "[''h0'', ''h1'', ''h2'']" 0 "[]" Next]
        navigateSearchResults_cyclic [of "[''h0'', ''h1'', ''h2'']" 1 "[]" Next]
        navigateSearchResults_cyclic [of "[''h0'', ''h1'', ''h2'']" 2 "[]" Next]
        navigateSearchResults_cyclic [of "[] :: string list" 0 "[Next, Prev, Next]" Next]
  by (simp add: navigateSearchResults_def resetSearchIndex_def)

subsection \<open>Path round trip\<close>

lemma splitOn_nonempty: "splitOn p s \<noteq> []"
  by (induction s) (auto split: list.splits)

lemma splitOn_append_delim:
  "p d \<Longrightarrow> splitOn p (a @ d # b) = splitOn p a @ splitOn p b"
proof (induction a)
  case Nil
  then show ?case by simp
next
  case (Cons c a)
  then show ?case
    using splitOn_nonempty [of p a] by (auto split: list.splits)
qed

lemma splitOn_plain: "list_all (\<lambda>c. \<not> p c) k \<Longrightarrow> splitOn p k = [k]"
  by (induction k) auto

lemma pathParts_Nil: "pathParts [] = []"
  by (simp add: pathParts_def)

lemma pathParts_append_delim:
  "isDelimiter d \<Longrightarrow> pathParts (a @ d # b) = pathParts a @ pathParts b"
  by (simp add: pathParts_def splitOn_append_delim)

lemma pathParts_plain:
  "k \<noteq> [] \<Longrightarrow> list_all (\<lambda>c. \<not> isDelimiter c) k \<Longrightarrow> pathParts k = [k]"
  by (simp add: pathParts_def splitOn_plain)

lemma digits_set: "set (digits n) \<subseteq> set ''0123456789''"
proof (induction n rule: digits.induct)
  case (1 n)
  have m: "''0123456789'' ! k \<in> set ''0123456789''" if "k < 10" for k
    using that nth_mem [of k "''0123456789''"] by simp
  show ?case
  proof (cases "n < 10")
    case True
    then show ?thesis using m [of n] by (subst digits.simps) simp
  next
    case False
    then show ?thesis using 1 m [of "n mod 10"] by (subst digits.simps) auto
  qed
qed

lemma digits_nonempty: "digits n \<noteq> []"
  by (subst digits.simps) simp

lemma digits_plain: "list_all (\<lambda>c. \<not> isDelimiter c) (digits n)"
  using digits_set [of n] by (auto simp: list_all_iff isDelimiter_def)

lemma pathParts_renderFrom:
  "plainKeys segs \<Longrightarrow>
   pathParts (renderFrom currentPath segs) = pathParts currentPath @ map segmentText segs"
proof (induction segs arbitrary: currentPath)
  case Nil
  then show ?case by simp
next
  case (Cons seg segs)
  show ?case
  proof (cases seg)
    case (Key k)
    with Cons.prems have k: "k \<noteq> []" "list_all (\<lambda>c. \<not> isDelimiter c) k" and rest: "plainKeys segs"
      by simp_all
    have "pathParts (keyPath currentPath k) = pathParts currentPath @ [k]"
      using pathParts_append_delim [of "CHR ''.''" currentPath k] pathParts_plain [OF k]
      by (simp add: keyPath_def pathParts_Nil isDelimiter_def)
    with Key Cons.IH [OF rest] show ?thesis by simp
  next
    case (Index i)
    with Cons.prems have rest: "plainKeys segs" by simp
    have step: "pathParts (cp @ CHR ''['' # (digits i @ CHR '']'' # [])) = pathParts cp @ [digits i]"
      for cp
      using pathParts_append_delim [of "CHR ''[''" cp "digits i @ CHR '']'' # []"]
            pathParts_append_delim [of "CHR '']''" "digits i" "[]"]
            pathParts_plain [OF digits_nonempty digits_plain, of i]
      by (simp add: isDelimiter_def pathParts_Nil)
    have "pathParts (indexPath currentPath i) = pathParts currentPath @ [digits i]"
      using step [of currentPath] step [of "[]"]
      by (simp add: indexPath_def pathParts_Nil)
    with Index Cons.IH [OF rest] show ?thesis by simp
  qed
qed


text \<open>The paths that \<^verbatim>\<open>extractJsonPaths\<close> returns are the renderings of the positions.\<close>

lemma extract_traverse_positions:
  "extract_traverse t currentPath paths = paths @ map (renderFrom currentPath) (positions t)"
  "extract_items xs i currentPath paths = paths @ map (renderFrom currentPath) (positionsItems xs i)"
  "extract_members kvs currentPath paths = paths @ map (renderFrom currentPath) (positionsMembers kvs)"
  by (induction t currentPath paths and xs i currentPath paths and kvs currentPath paths
      rule: extract_traverse_extract_items_extract_members.induct)
     (simp_all add: Let_def o_def)

lemma extractJsonPaths_positions:
  "extractJsonPaths data = map renderPath (positions data)"
  by (simp add: extractJsonPaths_def extract_traverse_positions(1) renderPath_def)

text \<open>
  Claim C8 (as amended). For every path whose object keys are non-empty and contain none
  of the characters \<open>.\<close>, \<open>[\<close>, \<open>]\<close>, splitting its rendering at these characters and dropping
  the empty fragments gives back the segments in order, each as its text (a key as
  itself, an index as its decimal numeral). The paths of \<^verbatim>\<open>extractJsonPaths\<close> are these
  renderings, of the positions of the document in pre-order. For the document \<^verbatim>\<open>{"a":[1,{"b":2}]}\<close> the
  paths are \<open>a\<close>, \<open>a[0]\<close>, \<open>a[1]\<close>, \<open>a[1].b\<close>; the path to 2 is rendered \<open>a[1].b\<close> and
  splits into \<open>a\<close>, \<open>1\<close>, \<open>b\<close>.
\<close>

theorem path_round_trip:
  "(plainKeys segs \<longrightarrow> pathParts (renderPath segs) = map segmentText segs)
 \<and> extractJsonPaths data = map renderPath (positions data)
 \<and> extractJsonPaths exampleDoc = [''a'', ''a[0]'', ''a[1]'', ''a[1].b'']
 \<and> renderPath [Key ''a'', Index 1, Key ''b''] = ''a[1].b''
 \<and> pathParts ''a[1].b'' = [''a'', ''1'', ''b'']"
proof (intro conjI impI)
  assume "plainKeys segs"
  from pathParts_renderFrom [OF this, of "[]"]
  show "pathParts (renderPath segs) = map segmentText segs"
    by (simp add: renderPath_def pathParts_Nil)
next
  show "extractJsonPaths data = map renderPath (positions data)"
    by (rule extractJsonPaths_positions)
next
  have d0: "digits 0 = ''0''" and d1: "digits (Suc 0) = ''1''" by (simp_all add: digits.simps)
  show "extractJsonPaths exampleDoc = [''a'', ''a[0]'', ''a[1]'', ''a[1].b'']"
    by (simp add: extractJsonPaths_def exampleDoc_def keyPath_def indexPath_def d0 d1)
  show "renderPath [Key ''a'', Index 1, Key ''b''] = ''a[1].b''"
    by (simp add: renderPath_def keyPath_def indexPath_def d1)
  show "pathParts ''a[1].b'' = [''a'', ''1'', ''b'']"
    by (simp add: pathParts_def isDelimiter_def)
qed

text \<open>The theorem at the path of the example.\<close>

theorem path_round_trip_witness:
  "plainKeys [Key ''a'', Index 1, Key ''b'']
 \<and> pathParts (renderPath [Key ''a'', Index 1, Key ''b'']) = [''a'', ''1'', ''b'']"
  using path_round_trip [of "[Key ''a'', Index 1, Key ''b'']"]
  by (simp add: isDelimiter_def digits.simps [of "Suc 0"])

text \<open>
  Without the non-emptiness of the keys the round trip fails: an empty key contains no
  delimiter, and the path with the segments \<open>a\<close> and the empty key is rendered \<open>a.\<close>, which
  splits into the single fragment \<open>a\<close>.
\<close>

theorem path_round_trip_counterexample:
  "delimiterFreeKeys [Key ''a'', Key []]
 \<and> renderPath [Key ''a'', Key []] = ''a.''
 \<and> pathParts (renderPath [Key ''a'', Key []]) = [''a'']
 \<and> map segmentText [Key ''a'', Key []] = [''a'', []]"
  by (simp add: isDelimiter_def renderPath_def keyPath_def pathParts_def)

subsection \<open>Search\<close>


lemma exampleRuntime_lower:
  "toLowerCase exampleRuntime s = map asciiLowerChar s"
  by (simp add: exampleRuntime_def)

lemma exampleRuntime_number:
  "String_number exampleRuntime (Num 1) = ''1''"
  by (simp add: exampleRuntime_def decimal_def digits.simps)

text \<open>The search of the tree view returns no hit for a blank search term.\<close>

lemma runViewSearch_blank: "trim searchTerm = [] \<Longrightarrow> runViewSearch rt searchTerm data = []"
  by (simp add: runViewSearch_def)

text \<open>
  Claim C4 at the document \<^verbatim>\<open>{"a":1}\<close> with the empty query, and at the string
  \<^verbatim>\<open>"a b"\<close> with the query of one space: the library's search returns hits, where the
  search of the tree view returns none.
\<close>

theorem searchInJson_blank_query:
  "searchInJson exampleRuntime (JObj [(''a'', JNum (Num 1))]) [] False =
     [\<lparr>hit_path = ''a'', hit_value = JNum (Num 1), hit_type = ''number''\<rparr>,
      \<lparr>hit_path = ''a'', hit_value = JNum (Num 1), hit_type = ''number''\<rparr>]
 \<and> searchInJson exampleRuntime (JStr ''a b'') '' '' False =
     [\<lparr>hit_path = [], hit_value = JStr ''a b'', hit_type = ''string''\<rparr>]
 \<and> runViewSearch exampleRuntime [] (JObj [(''a'', JNum (Num 1))]) = []
 \<and> runViewSearch exampleRuntime '' '' (JStr ''a b'') = []"
proof -
  have t: "trim [] = []" "trim '' '' = []" by (simp_all add: trim_def isWhiteSpace_def)
  show ?thesis
    by (simp add: runViewSearch_blank t)
       (simp add: searchInJson_def exampleRuntime_lower exampleRuntime_number asciiLowerChar_def
          keyPath_def Let_def)
qed

subsection \<open>The tree view\<close>

lemma JsonTreeNode_limit:
  "maxNodes \<le> current \<Longrightarrow> JsonTreeNode data path isExpanded maxNodes current = ([LimitReached], current)"
  by (subst JsonTreeNode.simps) simp

lemma JsonTreeNode_leaf:
  "current < maxNodes \<Longrightarrow> \<not> isExpanded \<or> \<not> hasChildren data \<Longrightarrow>
   JsonTreeNode data path isExpanded maxNodes current = ([Row path data], current + 1)"
  by (subst JsonTreeNode.simps) auto

lemma JsonTreeNode_expanded:
  "current < maxNodes \<Longrightarrow> isExpanded \<Longrightarrow> hasChildren data \<Longrightarrow>
   JsonTreeNode data path isExpanded maxNodes current =
     fold (\<lambda>child (rows, n).
                case JsonTreeNode (fst child) (snd child) False maxNodes n of
                  (rows', n') \<Rightarrow> (rows @ rows', n'))
          (renderChildren data path maxNodes (current + 1))
          ([Row path data], current + 1)"
  by (subst JsonTreeNode.simps) simp

text \<open>The rendering of a list of child elements, all of them collapsed.\<close>

lemma mount_children:
  "fold (\<lambda>child (rows, n).
            case JsonTreeNode (fst child) (snd child) False maxNodes n of
              (rows', n') \<Rightarrow> (rows @ rows', n'))
        children (rows, n) =
     (rows @ map (\<lambda>child. Row (snd child) (fst child)) (take (maxNodes - n) children)
           @ replicate (length children - (maxNodes - n)) LimitReached,
      n + min (length children) (maxNodes - n))"
proof (induction children arbitrary: rows n)
  case Nil
  then show ?case by simp
next
  case (Cons child children)
  show ?case
  proof (cases "n < maxNodes")
    case True
    then have "JsonTreeNode (fst child) (snd child) False maxNodes n
                 = ([Row (snd child) (fst child)], n + 1)"
      by (simp add: JsonTreeNode_leaf)
    moreover from True obtain k where k: "maxNodes - n = Suc k" "maxNodes - (n + 1) = k"
      by (cases "maxNodes - n") auto
    ultimately show ?thesis using Cons.IH [of "rows @ [Row (snd child) (fst child)]" "n + 1"]
      by simp
  next
    case False
    then have "JsonTreeNode (fst child) (snd child) False maxNodes n = ([LimitReached], n)"
      by (simp add: JsonTreeNode_limit)
    moreover from False have "maxNodes - n = 0" by simp
    ultimately show ?thesis using Cons.IH [of "rows @ [LimitReached]" n]
      by (simp add: replicate_app_Cons_same)
  qed
qed


lemma arrayChildren_all:
  "arrayChildren xs i path maxNodes current =
     (if current < maxNodes then arrayChildren xs i path 1 0 else [])"
  by (induction xs i path maxNodes current rule: arrayChildren.induct) simp_all

lemma objectChildren_all:
  "objectChildren kvs path maxNodes current =
     (if current < maxNodes then objectChildren kvs path 1 0 else [])"
  by (induction kvs path maxNodes current rule: objectChildren.induct) simp_all

lemma renderChildren_all:
  "renderChildren data path maxNodes current =
     (if current < maxNodes then renderChildren data path 1 0 else [])"
  using arrayChildren_all [of _ 0 path maxNodes current]
        objectChildren_all [of _ path maxNodes current]
  by (cases data) simp_all

text \<open>
  The tree view in closed form: the root; below it, when the root is expanded and the
  budget is at least 2, one row for each of the first \<open>maxNodes - 1\<close> children and one
  "limit reached" row for every child after them. The expansion set is consulted at the
  root path only.
\<close>

lemma JsonTreeView_closed_form:
  "JsonTreeView data expandedPaths maxNodes =
     (if maxNodes = 0 then [LimitReached]
      else if [] \<in> set expandedPaths \<and> hasChildren data \<and> 1 < maxNodes
      then Row [] data
           # map (\<lambda>child. Row (snd child) (fst child))
               (take (maxNodes - 1) (renderChildren data [] 1 0))
           @ replicate (length (renderChildren data [] 1 0) - (maxNodes - 1)) LimitReached
      else [Row [] data])"
proof (cases "maxNodes = 0")
  case True
  then show ?thesis by (simp add: JsonTreeView_def JsonTreeNode_limit)
next
  case False
  then have pos: "0 < maxNodes" by simp
  show ?thesis
  proof (cases "[] \<in> set expandedPaths \<and> hasChildren data")
    case leaf: False
    with pos JsonTreeNode_leaf [of 0 maxNodes "[] \<in> set expandedPaths" data "[]"]
    show ?thesis by (auto simp: JsonTreeView_def)
  next
    case True
    with pos have e: "JsonTreeNode data [] ([] \<in> set expandedPaths) maxNodes 0 =
        fold (\<lambda>child (rows, n).
                case JsonTreeNode (fst child) (snd child) False maxNodes n of
                  (rows', n') \<Rightarrow> (rows @ rows', n'))
          (renderChildren data [] maxNodes 1) ([Row [] data], 1)"
      using JsonTreeNode_expanded [of 0 maxNodes "[] \<in> set expandedPaths" data "[]"] by simp
    show ?thesis
    proof (cases "1 < maxNodes")
      case False
      with renderChildren_all [of data "[]" maxNodes 1] have "renderChildren data [] maxNodes 1 = []"
        by simp
      with e False pos show ?thesis by (simp add: JsonTreeView_def)
    next
      case big: True
      with renderChildren_all [of data "[]" maxNodes 1]
      have "renderChildren data [] maxNodes 1 = renderChildren data [] 1 0" by simp
      with e mount_children [of maxNodes "renderChildren data [] 1 0" "[Row [] data]" 1] big True pos
      show ?thesis by (simp add: JsonTreeView_def)
    qed
  qed
qed

lemma JsonTreeView_budget:
  "length (filter (\<lambda>r. r \<noteq> LimitReached) (JsonTreeView data expandedPaths maxNodes)) \<le> maxNodes"
proof -
  have "filter (\<lambda>r. r \<noteq> LimitReached) (map (\<lambda>child. Row (snd child) (fst child)) cs)
          = map (\<lambda>child. Row (snd child) (fst child)) cs" for cs :: "(json \<times> string) list"
    by (induction cs) simp_all
  then show ?thesis
    by (simp add: JsonTreeView_closed_form) linarith
qed

lemma objectChildren_flat:
  "objectChildren (map (\<lambda>i. (f i, g i)) is) [] (Suc 0) 0 = map (\<lambda>i. (g i, f i)) is"
  by (induction "is") simp_all

lemma flatDoc_children:
  "renderChildren (flatDoc n) [] (Suc 0) 0 = map (\<lambda>i. (JNum (Num (of_nat i)), ''k'' @ digits i)) [0..<n]"
  unfolding flatDoc_def renderChildren.simps
  by (rule objectChildren_flat)

lemma flatDoc_hasChildren: "hasChildren (flatDoc (Suc n))"
  by (simp add: flatDoc_def)

text \<open>
  The example with 100 flat keys: with the budget 10, the root, 9 keys and 91 "limit
  reached" rows; with the budget 1000, the root and the 100 keys.
\<close>

lemma flatDoc_view_10:
  "JsonTreeView (flatDoc 100) [[]] 10 =
     Row [] (flatDoc 100)
     # map (\<lambda>i. Row (''k'' @ digits i) (JNum (Num (of_nat i)))) [0..<9]
     @ replicate 91 LimitReached"
proof -
  have h: "hasChildren (flatDoc 100)" using flatDoc_hasChildren [of 99] by simp
  have t: "take 9 [0..<100] = [0..<9]" by (simp add: take_upt)
  show ?thesis
    by (simp add: JsonTreeView_closed_form flatDoc_children h take_map t o_def)
qed

lemma flatDoc_view_1000:
  "JsonTreeView (flatDoc 100) [[]] 1000 =
     Row [] (flatDoc 100) # map (\<lambda>i. Row (''k'' @ digits i) (JNum (Num (of_nat i)))) [0..<100]"
proof -
  have h: "hasChildren (flatDoc 100)" using flatDoc_hasChildren [of 99] by simp
  show ?thesis
    by (simp add: JsonTreeView_closed_form flatDoc_children h o_def)
qed

text \<open>
  Claim C5 at the document \<^verbatim>\<open>{"a":[1]}\<close> with the expansion set of the root path and
  the path \<open>a\<close>, and the budget 1000: the tree view shows the root and \<open>a\<close>, and not the
  element \<open>a[0]\<close> of the expanded array \<open>a\<close>, which is the third visible node of the
  specification.
\<close>

theorem JsonTreeView_nested_expansion:
  "JsonTreeView nestedDoc [[], ''a''] 1000 = [Row [] nestedDoc, Row ''a'' (JArr [JNum (Num 1)])]
 \<and> specVisible [[], ''a''] nestedDoc [] =
     [Row [] nestedDoc, Row ''a'' (JArr [JNum (Num 1)]), Row ''a[0]'' (JNum (Num 1))]"
  by (simp add: JsonTreeView_closed_form)
     (simp add: nestedDoc_def keyPath_def indexPath_def digits.simps)

subsection \<open>The analyzer and its budgets\<close>

lemma forArray_invariant:
  "\<forall>x\<in>set xs. \<forall>s s'. P s \<longrightarrow> body x s = Inr s' \<longrightarrow> P s' \<Longrightarrow>
   P s \<Longrightarrow> forArray cond body xs s = Inr s' \<Longrightarrow> P s'"
proof (induction xs arbitrary: s)
  case Nil
  then show ?case by simp
next
  case (Cons x xs)
  from Cons.prems(1) have here: "\<forall>s s'. P s \<longrightarrow> body x s = Inr s' \<longrightarrow> P s'"
    and rest: "\<forall>x\<in>set xs. \<forall>s s'. P s \<longrightarrow> body x s = Inr s' \<longrightarrow> P s'"
    by (blast intro: list.set_intros)+
  show ?case
  proof (cases "cond s")
    case True
    with Cons.prems(3) obtain s1 where b: "body x s = Inr s1" and r: "forArray cond body xs s1 = Inr s'"
      by (cases "body x s") simp_all
    from here Cons.prems(2) b have "P s1" by blast
    from Cons.IH [OF rest this r] show ?thesis .
  next
    case False
    with Cons.prems(3) have "s' = s" by simp
    with Cons.prems(2) show ?thesis by simp
  qed
qed

lemma forIn_invariant:
  "\<forall>x\<in>set xs. \<forall>s s'. P s \<longrightarrow> body x s = Inr s' \<longrightarrow> P s' \<Longrightarrow>
   P s \<Longrightarrow> forIn sh cond body xs s = Inr s' \<Longrightarrow> P s'"
proof (induction xs arbitrary: s)
  case Nil
  then show ?case by simp
next
  case (Cons x xs)
  from Cons.prems(1) have here: "\<forall>s s'. P s \<longrightarrow> body x s = Inr s' \<longrightarrow> P s'"
    and rest: "\<forall>x\<in>set xs. \<forall>s s'. P s \<longrightarrow> body x s = Inr s' \<longrightarrow> P s'"
    by (blast intro: list.set_intros)+
  from Cons.prems(3) have nsh: "\<not> sh" by (cases sh) simp_all
  show ?case
  proof (cases "cond s")
    case True
    with Cons.prems(3) nsh obtain s1 where b: "body x s = Inr s1" and r: "forIn sh cond body xs s1 = Inr s'"
      by (cases "body x s") simp_all
    from here Cons.prems(2) b have "P s1" by blast
    from Cons.IH [OF rest this r] show ?thesis .
  next
    case False
    with Cons.prems(3) nsh have "forIn sh cond body xs s = Inr s'" by simp
    from Cons.IH [OF rest Cons.prems(2) this] show ?thesis .
  qed
qed


lemma traverse_stop:
  "maxNodes \<le> nodeCount st \<or> maxDepth < currentDepth \<Longrightarrow>
   traverse h maxDepth maxNodes obj currentDepth st = Inr st"
  by (subst traverse.simps) auto

lemma traverse_visit:
  "nodeCount st < maxNodes \<Longrightarrow> currentDepth \<le> maxDepth \<Longrightarrow>
   traverse h maxDepth maxNodes obj currentDepth st =
     (case obj of
        VRef a \<Rightarrow>
          if a \<in> visited st
          then Inr (st\<lparr>nodeCount := nodeCount st + 1, depth := max (depth st) currentDepth\<rparr>)
          else
            (case deref h a of
               Some (ArrayObj xs) \<Rightarrow>
                 forArray (\<lambda>s. nodeCount s < maxNodes)
                   (\<lambda>x s. traverse h maxDepth maxNodes x (currentDepth + 1) s) xs
                   (st\<lparr>nodeCount := nodeCount st + 1, depth := max (depth st) currentDepth,
                       visited := insert a (visited st)\<rparr>)
             | Some (PlainObj kvs) \<Rightarrow>
                 forIn (hasOwn kvs ''hasOwnProperty'') (\<lambda>s. nodeCount s < maxNodes)
                   (\<lambda>kv s. traverse h maxDepth maxNodes (snd kv) (currentDepth + 1) s) kvs
                   (st\<lparr>nodeCount := nodeCount st + 1, depth := max (depth st) currentDepth,
                       visited := insert a (visited st)\<rparr>)
             | None \<Rightarrow>
                 Inr (st\<lparr>nodeCount := nodeCount st + 1, depth := max (depth st) currentDepth,
                         visited := insert a (visited st)\<rparr>))
      | _ \<Rightarrow> Inr (st\<lparr>nodeCount := nodeCount st + 1, depth := max (depth st) currentDepth\<rparr>))"
  by (subst traverse.simps) (simp add: Let_def split: jsval.splits option.splits jsobj.splits)

lemma traverse_invariant:
  "\<forall>s d. P s \<longrightarrow> nodeCount s < maxNodes \<longrightarrow> d \<le> maxDepth \<longrightarrow>
      P (s\<lparr>nodeCount := nodeCount s + 1, depth := max (depth s) d\<rparr>) \<Longrightarrow>
   \<forall>s a. P s \<longrightarrow> P (s\<lparr>visited := insert a (visited s)\<rparr>) \<Longrightarrow>
   P st \<Longrightarrow> traverse h maxDepth maxNodes obj currentDepth st = Inr st' \<Longrightarrow> P st'"
proof (induction h maxDepth maxNodes obj currentDepth st arbitrary: st' rule: traverse.induct)
  case (1 h maxDepth maxNodes obj currentDepth st)
  note step = "1.prems"(1) and vis = "1.prems"(2) and p = "1.prems"(3) and run = "1.prems"(4)
  show ?case
  proof (cases "maxNodes \<le> nodeCount st \<or> maxDepth < currentDepth")
    case True
    from traverse_stop [OF True] run have "st' = st" by simp
    with p show ?thesis by simp
  next
    case False
    then have lt: "nodeCount st < maxNodes" and le: "currentDepth \<le> maxDepth" by simp_all
    define st1 where "st1 = st\<lparr>nodeCount := nodeCount st + 1, depth := max (depth st) currentDepth\<rparr>"
    from step p lt le have p1: "P st1" unfolding st1_def by blast
    note unfold = traverse_visit [OF lt le, of h obj]
    show ?thesis
    proof (cases obj)
      case (VRef a)
      show ?thesis
      proof (cases "a \<in> visited st")
        case True
        with VRef unfold run have "st' = st1" by (simp add: st1_def)
        with p1 show ?thesis by simp
      next
        case nv: False
        define st2 where "st2 = st1\<lparr>visited := insert a (visited st1)\<rparr>"
        from vis p1 have p2: "P st2" unfolding st2_def by blast
        have st2: "st2 = st\<lparr>nodeCount := nodeCount st + 1, depth := max (depth st) currentDepth,
                       visited := insert a (visited st)\<rparr>"
          by (simp add: st2_def st1_def)
        have nv1: "a \<notin> visited st1" using nv by (simp add: st1_def)
        show ?thesis
        proof (cases "deref h a")
          case None
          with VRef nv unfold run st2 have "st' = st2" by simp
          with p2 show ?thesis by simp
        next
          case (Some ob)
          show ?thesis
          proof (cases ob)
            case (ArrayObj xs)
            from VRef nv Some ArrayObj unfold run st2
            have loop: "forArray (\<lambda>s. nodeCount s < maxNodes)
                   (\<lambda>x s. traverse h maxDepth maxNodes x (currentDepth + 1) s) xs st2 = Inr st'"
              by simp
            have body: "\<forall>x\<in>set xs. \<forall>s s'. P s \<longrightarrow>
                  traverse h maxDepth maxNodes x (currentDepth + 1) s = Inr s' \<longrightarrow> P s'"
              using "1.IH"(1) [OF _ _ st1_def VRef nv1 st2_def Some ArrayObj _ step vis] False
              by blast
            from forArray_invariant [where P = P, OF body p2 loop] show ?thesis .
          next
            case (PlainObj kvs)
            from VRef nv Some PlainObj unfold run st2
            have loop: "forIn (hasOwn kvs ''hasOwnProperty'') (\<lambda>s. nodeCount s < maxNodes)
                   (\<lambda>kv s. traverse h maxDepth maxNodes (snd kv) (currentDepth + 1) s) kvs st2 = Inr st'"
              by simp
            have body: "\<forall>kv\<in>set kvs. \<forall>s s'. P s \<longrightarrow>
                  traverse h maxDepth maxNodes (snd kv) (currentDepth + 1) s = Inr s' \<longrightarrow> P s'"
              using "1.IH"(2) [OF _ _ st1_def VRef nv1 st2_def Some PlainObj _ step vis] False
              by blast
            from forIn_invariant [where P = P, OF body p2 loop] show ?thesis .
          qed
        qed
      qed
    qed (use unfold run p1 in \<open>simp_all add: st1_def\<close>)
  qed
qed


lemma traverse_within_budgets:
  assumes "traverse h maxDepth maxNodes obj currentDepth st = Inr st'"
    and "nodeCount st \<le> maxNodes" and "depth st \<le> maxDepth"
  shows "nodeCount st' \<le> maxNodes \<and> depth st' \<le> maxDepth"
  using traverse_invariant
    [where P = "\<lambda>s. nodeCount s \<le> maxNodes \<and> depth s \<le> maxDepth" and maxNodes = maxNodes
       and maxDepth = maxDepth and st = st, OF _ _ _ assms(1)] assms(2,3)
  by simp

lemma traverse_nodeCount_mono:
  assumes "traverse h maxDepth maxNodes obj currentDepth st = Inr st'"
  shows "nodeCount st \<le> nodeCount st'"
  using traverse_invariant
    [where P = "\<lambda>s. nodeCount st \<le> nodeCount s" and st = st, OF _ _ _ assms]
  by simp

lemma forArray_error:
  "forArray cond body xs s = Inl e \<Longrightarrow> \<exists>x\<in>set xs. \<exists>u. body x u = Inl e"
proof (induction xs arbitrary: s)
  case Nil
  then show ?case by simp
next
  case (Cons x xs)
  show ?case
  proof (cases "body x s")
    case (Inl e')
    with Cons.prems have "e' = e" by (simp split: if_splits)
    with Inl show ?thesis by auto
  next
    case (Inr s1)
    with Cons.prems have "forArray cond body xs s1 = Inl e" by (simp split: if_splits)
    from Cons.IH [OF this] show ?thesis by auto
  qed
qed

lemma forIn_error:
  "forIn sh cond body xs s = Inl e \<Longrightarrow> sh \<or> (\<exists>x\<in>set xs. \<exists>u. body x u = Inl e)"
proof (induction xs arbitrary: s)
  case Nil
  then show ?case by simp
next
  case (Cons x xs)
  show ?case
  proof (cases sh)
    case True
    then show ?thesis by simp
  next
    case nsh: False
    show ?thesis
    proof (cases "cond s")
      case False
      with nsh Cons.prems have "forIn sh cond body xs s = Inl e" by simp
      from Cons.IH [OF this] show ?thesis by auto
    next
      case True
      show ?thesis
      proof (cases "body x s")
        case (Inl e')
        with Cons.prems nsh True have "e' = e" by simp
        with Inl show ?thesis by auto
      next
        case (Inr s1)
        with Cons.prems nsh True have "forIn sh cond body xs s1 = Inl e" by simp
        from Cons.IH [OF this] show ?thesis by auto
      qed
    qed
  qed
qed

lemma deref_shadowed:
  "deref h a = Some (PlainObj kvs) \<Longrightarrow> hasOwn kvs ''hasOwnProperty'' \<Longrightarrow> shadowedHeap h"
  unfolding deref_def shadowedHeap_def list_ex_iff
  using nth_mem [of a h] by (cases "a < length h") (auto intro!: bexI [of _ "h ! a"])

lemma traverse_error:
  "traverse h maxDepth maxNodes obj currentDepth st = Inl e \<Longrightarrow> shadowedHeap h"
proof (induction h maxDepth maxNodes obj currentDepth st rule: traverse.induct)
  case (1 h maxDepth maxNodes obj currentDepth st)
  note run = "1.prems"
  show ?case
  proof (cases "maxNodes \<le> nodeCount st \<or> maxDepth < currentDepth")
    case True
    from traverse_stop [OF True] run show ?thesis by simp
  next
    case False
    then have lt: "nodeCount st < maxNodes" and le: "currentDepth \<le> maxDepth" by simp_all
    define st1 where "st1 = st\<lparr>nodeCount := nodeCount st + 1, depth := max (depth st) currentDepth\<rparr>"
    note unfold = traverse_visit [OF lt le, of h obj]
    show ?thesis
    proof (cases obj)
      case (VRef a)
      show ?thesis
      proof (cases "a \<in> visited st")
        case True
        with VRef unfold run show ?thesis by simp
      next
        case nv: False
        define st2 where "st2 = st1\<lparr>visited := insert a (visited st1)\<rparr>"
        have st2: "st2 = st\<lparr>nodeCount := nodeCount st + 1, depth := max (depth st) currentDepth,
                       visited := insert a (visited st)\<rparr>"
          by (simp add: st2_def st1_def)
        have nv1: "a \<notin> visited st1" using nv by (simp add: st1_def)
        show ?thesis
        proof (cases "deref h a")
          case None
          with VRef nv unfold run show ?thesis by simp
        next
          case (Some ob)
          show ?thesis
          proof (cases ob)
            case (ArrayObj xs)
            from VRef nv Some ArrayObj unfold run st2
            have "forArray (\<lambda>s. nodeCount s < maxNodes)
                   (\<lambda>x s. traverse h maxDepth maxNodes x (currentDepth + 1) s) xs st2 = Inl e"
              by simp
            from forArray_error [OF this] obtain x u where "x \<in> set xs"
              and "traverse h maxDepth maxNodes x (currentDepth + 1) u = Inl e" by blast
            with "1.IH"(1) [OF _ _ st1_def VRef nv1 st2_def Some ArrayObj] False
            show ?thesis by blast
          next
            case (PlainObj kvs)
            from VRef nv Some PlainObj unfold run st2
            have "forIn (hasOwn kvs ''hasOwnProperty'') (\<lambda>s. nodeCount s < maxNodes)
                   (\<lambda>kv s. traverse h maxDepth maxNodes (snd kv) (currentDepth + 1) s) kvs st2 = Inl e"
              by simp
            from forIn_error [OF this] consider "hasOwn kvs ''hasOwnProperty''"
              | kv u where "kv \<in> set kvs" "traverse h maxDepth maxNodes (snd kv) (currentDepth + 1) u = Inl e"
              by blast
            then show ?thesis
            proof cases
              case 1
              with Some PlainObj show ?thesis by (simp add: deref_shadowed)
            next
              case 2
              with "1.IH"(2) [OF _ _ st1_def VRef nv1 st2_def Some PlainObj] False
              show ?thesis by blast
            qed
          qed
        qed
      qed
    qed (use unfold run in simp_all)
  qed
qed

lemma selfArray_traverse:
  "traverse selfArray (Suc md) (Suc (Suc mn)) (VRef 0) 0 \<lparr>nodeCount = 0, depth = 0, visited = {}\<rparr>
     = Inr \<lparr>nodeCount = 2, depth = 1, visited = {0}\<rparr>"
  by (simp add: traverse_visit traverse_stop deref_def selfArray_def)


lemma forArray_done: "\<not> cond s \<Longrightarrow> forArray cond body xs s = Inr s"
  by (cases xs) simp_all

lemma forIn_done: "\<not> sh \<Longrightarrow> \<not> cond s \<Longrightarrow> forIn sh cond body xs s = Inr s"
  by (induction xs) simp_all

lemma agree_saturated:
  assumes "agree m s s'" and "nodeCount s = m"
    and "\<forall>u. r' = Inr u \<longrightarrow> nodeCount s' \<le> nodeCount u"
  shows "agreeResult m (Inr s) r'"
proof (cases r')
  case (Inl e)
  with assms(2) show ?thesis by (simp add: agreeResult_def)
next
  case (Inr u)
  with assms(3) have "nodeCount s' \<le> nodeCount u" by simp
  moreover from assms(1,2) have "m \<le> nodeCount s'" by (auto simp: agree_def)
  ultimately show ?thesis using Inr assms(2) by (simp add: agreeResult_def agree_def)
qed

lemma forArray_agree:
  assumes mm: "m \<le> m'"
  shows "\<forall>x\<in>set xs. \<forall>s s'. agree m s s' \<longrightarrow> agreeResult m (f x s) (f' x s') \<Longrightarrow>
   \<forall>x\<in>set xs. \<forall>s s'. f' x s = Inr s' \<longrightarrow> nodeCount s \<le> nodeCount s' \<Longrightarrow>
   agree m s s' \<Longrightarrow>
   agreeResult m (forArray (\<lambda>s. nodeCount s < m) f xs s) (forArray (\<lambda>s. nodeCount s < m') f' xs s')"
proof (induction xs arbitrary: s s')
  case Nil
  then show ?case by (simp add: agreeResult_def)
next
  case (Cons x xs)
  from Cons.prems(1) have here: "\<forall>s s'. agree m s s' \<longrightarrow> agreeResult m (f x s) (f' x s')"
    and rest: "\<forall>x\<in>set xs. \<forall>s s'. agree m s s' \<longrightarrow> agreeResult m (f x s) (f' x s')"
    by (blast intro: list.set_intros)+
  from Cons.prems(2) have rmono: "\<forall>x\<in>set xs. \<forall>s s'. f' x s = Inr s' \<longrightarrow> nodeCount s \<le> nodeCount s'"
    by (blast intro: list.set_intros)
  note ag = Cons.prems(3)
  show ?case
  proof (cases "nodeCount s < m")
    case False
    with ag have sat: "nodeCount s = m" by (simp add: agree_def)
    have "\<forall>u. forArray (\<lambda>s. nodeCount s < m') f' (x # xs) s' = Inr u \<longrightarrow> nodeCount s' \<le> nodeCount u"
      using forArray_invariant [where P = "\<lambda>u. nodeCount s' \<le> nodeCount u" and body = f'
          and xs = "x # xs" and s = s' and cond = "\<lambda>s. nodeCount s < m'"] Cons.prems(2)
      by (meson le_refl le_trans)
    from agree_saturated [OF ag sat this] False show ?thesis
      by (simp add: forArray_done)
  next
    case True
    with ag have eq: "s' = s" by (auto simp: agree_def)
    from True mm have c': "nodeCount s < m'" by simp
    from here ag have r1: "agreeResult m (f x s) (f' x s')" by blast
    show ?thesis
    proof (cases "f x s")
      case (Inl e)
      with r1 have "f' x s' = Inl e" by (simp add: agreeResult_def)
      with Inl True c' eq show ?thesis by (simp add: agreeResult_def)
    next
      case (Inr s1)
      show ?thesis
      proof (cases "f' x s'")
        case (Inl e')
        with r1 Inr have "nodeCount s1 = m" by (simp add: agreeResult_def)
        with Inl Inr True c' eq show ?thesis
          by (simp add: agreeResult_def forArray_done)
      next
        case r: (Inr s1')
        with r1 Inr have "agree m s1 s1'" by (simp add: agreeResult_def)
        from Cons.IH [OF rest rmono this] Inr r True c' eq show ?thesis by simp
      qed
    qed
  qed
qed

lemma forIn_agree:
  assumes mm: "m \<le> m'"
  shows "\<forall>x\<in>set xs. \<forall>s s'. agree m s s' \<longrightarrow> agreeResult m (f x s) (f' x s') \<Longrightarrow>
   \<forall>x\<in>set xs. \<forall>s s'. f' x s = Inr s' \<longrightarrow> nodeCount s \<le> nodeCount s' \<Longrightarrow>
   agree m s s' \<Longrightarrow>
   agreeResult m (forIn sh (\<lambda>s. nodeCount s < m) f xs s) (forIn sh (\<lambda>s. nodeCount s < m') f' xs s')"
proof (induction xs arbitrary: s s')
  case Nil
  then show ?case by (simp add: agreeResult_def)
next
  case (Cons x xs)
  from Cons.prems(1) have here: "\<forall>s s'. agree m s s' \<longrightarrow> agreeResult m (f x s) (f' x s')"
    and rest: "\<forall>x\<in>set xs. \<forall>s s'. agree m s s' \<longrightarrow> agreeResult m (f x s) (f' x s')"
    by (blast intro: list.set_intros)+
  from Cons.prems(2) have rmono: "\<forall>x\<in>set xs. \<forall>s s'. f' x s = Inr s' \<longrightarrow> nodeCount s \<le> nodeCount s'"
    by (blast intro: list.set_intros)
  note ag = Cons.prems(3)
  show ?case
  proof (cases sh)
    case True
    then show ?thesis by (simp add: agreeResult_def)
  next
    case nsh: False
    show ?thesis
    proof (cases "nodeCount s < m")
      case False
      with ag have sat: "nodeCount s = m" by (simp add: agree_def)
      have "\<forall>u. forIn sh (\<lambda>s. nodeCount s < m') f' (x # xs) s' = Inr u \<longrightarrow> nodeCount s' \<le> nodeCount u"
        using forIn_invariant [where P = "\<lambda>u. nodeCount s' \<le> nodeCount u" and body = f'
            and xs = "x # xs" and s = s' and cond = "\<lambda>s. nodeCount s < m'" and sh = sh] Cons.prems(2)
        by (meson le_refl le_trans)
      from agree_saturated [OF ag sat this] False nsh
        forIn_done [of sh "\<lambda>s. nodeCount s < m" s f "x # xs"]
      show ?thesis by simp
    next
      case True
      with ag have eq: "s' = s" by (auto simp: agree_def)
      from True mm have c': "nodeCount s < m'" by simp
      from here ag have r1: "agreeResult m (f x s) (f' x s')" by blast
      show ?thesis
      proof (cases "f x s")
        case (Inl e)
        with r1 have "f' x s' = Inl e" by (simp add: agreeResult_def)
        with Inl True c' eq nsh show ?thesis by (simp add: agreeResult_def)
      next
        case (Inr s1)
        show ?thesis
        proof (cases "f' x s'")
          case (Inl e')
          with r1 Inr have "nodeCount s1 = m" by (simp add: agreeResult_def)
          with Inl Inr True c' eq nsh forIn_done [of sh "\<lambda>s. nodeCount s < m" s1 f xs]
          show ?thesis by (simp add: agreeResult_def)
        next
          case r: (Inr s1')
          with r1 Inr have "agree m s1 s1'" by (simp add: agreeResult_def)
          from Cons.IH [OF rest rmono this] Inr r True c' eq nsh show ?thesis by simp
        qed
      qed
    qed
  qed
qed


lemma traverse_agree:
  "m \<le> m' \<Longrightarrow> agree m st st' \<Longrightarrow>
   agreeResult m (traverse h maxDepth m obj currentDepth st)
                 (traverse h maxDepth m' obj currentDepth st')"
proof (induction h maxDepth m obj currentDepth st arbitrary: st' rule: traverse.induct)
  case (1 h maxDepth m obj currentDepth st)
  note mm = "1.prems"(1) and ag = "1.prems"(2)
  have mono': "\<forall>u. traverse h maxDepth m' x d s = Inr u \<longrightarrow> nodeCount s \<le> nodeCount u" for x d s
    using traverse_nodeCount_mono by blast
  show ?case
  proof (cases "m \<le> nodeCount st")
    case True
    with ag have sat: "nodeCount st = m" by (simp add: agree_def)
    from agree_saturated [OF ag sat mono'] traverse_stop [of m st maxDepth currentDepth h obj] True
    show ?thesis by simp
  next
    case lt0: False
    then have lt: "nodeCount st < m" by simp
    with ag have eq: "st' = st" by (auto simp: agree_def)
    from lt mm have lt': "nodeCount st < m'" by simp
    show ?thesis
    proof (cases "maxDepth < currentDepth")
      case True
      with ag traverse_stop [of m st maxDepth currentDepth h obj]
        traverse_stop [of m' st' maxDepth currentDepth h obj]
      show ?thesis by (simp add: agreeResult_def)
    next
      case False
      then have le: "currentDepth \<le> maxDepth" by simp
      define st1 where "st1 = st\<lparr>nodeCount := nodeCount st + 1, depth := max (depth st) currentDepth\<rparr>"
      have ag1: "agree m st1 st1" using lt by (simp add: agree_def st1_def)
      note u = traverse_visit [OF lt le, of h obj] and u' = traverse_visit [OF lt' le, of h obj]
      show ?thesis
      proof (cases obj)
        case (VRef a)
        show ?thesis
        proof (cases "a \<in> visited st")
          case True
          with VRef u u' eq ag1 show ?thesis by (simp add: agreeResult_def st1_def)
        next
          case nv: False
          define st2 where "st2 = st1\<lparr>visited := insert a (visited st1)\<rparr>"
          have st2: "st2 = st\<lparr>nodeCount := nodeCount st + 1, depth := max (depth st) currentDepth,
                         visited := insert a (visited st)\<rparr>"
            by (simp add: st2_def st1_def)
          have nv1: "a \<notin> visited st1" using nv by (simp add: st1_def)
          have ag2: "agree m st2 st2" using lt by (simp add: agree_def st2)
          show ?thesis
          proof (cases "deref h a")
            case None
            with VRef nv u u' eq ag2 st2 show ?thesis by (simp add: agreeResult_def)
          next
            case (Some ob)
            show ?thesis
            proof (cases ob)
              case (ArrayObj xs)
              have body: "\<forall>x\<in>set xs. \<forall>s s'. agree m s s' \<longrightarrow>
                    agreeResult m (traverse h maxDepth m x (currentDepth + 1) s)
                                  (traverse h maxDepth m' x (currentDepth + 1) s')"
                using "1.IH"(1) [OF lt0 False st1_def VRef nv1 st2_def Some ArrayObj _ mm]
                by blast
              have bmono: "\<forall>x\<in>set xs. \<forall>s s'. traverse h maxDepth m' x (currentDepth + 1) s = Inr s' \<longrightarrow>
                    nodeCount s \<le> nodeCount s'"
                using traverse_nodeCount_mono by blast
              from forArray_agree [OF mm body bmono ag2] VRef nv Some ArrayObj u u' eq st2
              show ?thesis by simp
            next
              case (PlainObj kvs)
              have body: "\<forall>kv\<in>set kvs. \<forall>s s'. agree m s s' \<longrightarrow>
                    agreeResult m (traverse h maxDepth m (snd kv) (currentDepth + 1) s)
                                  (traverse h maxDepth m' (snd kv) (currentDepth + 1) s')"
                using "1.IH"(2) [OF lt0 False st1_def VRef nv1 st2_def Some PlainObj _ mm]
                by blast
              have bmono: "\<forall>kv\<in>set kvs. \<forall>s s'. traverse h maxDepth m' (snd kv) (currentDepth + 1) s = Inr s' \<longrightarrow>
                    nodeCount s \<le> nodeCount s'"
                using traverse_nodeCount_mono by blast
              from forIn_agree [OF mm body bmono ag2, of "hasOwn kvs ''hasOwnProperty''"]
                VRef nv Some PlainObj u u' eq st2
              show ?thesis by simp
            qed
          qed
        qed
      qed (use u u' eq ag1 in \<open>simp_all add: agreeResult_def st1_def\<close>)
    qed
  qed
qed

lemmas traverse_eval = traverse_visit traverse_stop deref_def

text \<open>
  The object graph of a parsed document, and the traversal of it: the node count is the
  smaller of the budget and the number of nodes within \<open>maxDepth\<close>.
\<close>

lemma shadowedHeap_append: "shadowedHeap (h @ h') = (shadowedHeap h \<or> shadowedHeap h')"
  by (auto simp: shadowedHeap_def list_ex_iff)

lemma shadowedHeap_single:
  "shadowedHeap [ArrayObj vs] = False"
  "shadowedHeap [PlainObj ms] = hasOwn ms ''hasOwnProperty''"
  by (simp_all add: shadowedHeap_def)

lemma hasOwn_keys: "map fst ms = map fst kvs \<Longrightarrow> hasOwn ms k = hasOwn kvs k"
  unfolding hasOwn_def by (metis map_of_eq_None_iff set_map)

lemma alloc_shadowed:
  "shadowedHeap (snd (alloc t h)) = (shadowedHeap h \<or> shadowedDoc t)"
  "shadowedHeap (snd (alloc_items xs h)) = (shadowedHeap h \<or> shadowedItems xs)"
  "shadowedHeap (snd (alloc_members kvs h)) = (shadowedHeap h \<or> shadowedMembers kvs)
     \<and> map fst (fst (alloc_members kvs h)) = map fst kvs"
proof (induction t h and xs h and kvs h rule: alloc_alloc_items_alloc_members.induct)
  case (5 xs h)
  obtain vs h' where a: "alloc_items xs h = (vs, h')" by (cases "alloc_items xs h")
  with 5 have "shadowedHeap h' = (shadowedHeap h \<or> shadowedItems xs)" by simp
  with a show ?case by (simp add: shadowedHeap_append shadowedHeap_single)
next
  case (6 kvs h)
  obtain ms h' where a: "alloc_members kvs h = (ms, h')" by (cases "alloc_members kvs h")
  with 6 have sh: "shadowedHeap h' = (shadowedHeap h \<or> shadowedMembers kvs)"
    and keys: "map fst ms = map fst kvs" by simp_all
  from hasOwn_keys [OF keys] a sh show ?case
    by (simp add: shadowedHeap_append shadowedHeap_single) blast
next
  case (8 x xs h)
  obtain v h1 where a: "alloc x h = (v, h1)" by (cases "alloc x h")
  obtain vs h2 where b: "alloc_items xs h1 = (vs, h2)" by (cases "alloc_items xs h1")
  from "8.IH"(1) a have 1: "shadowedHeap h1 = (shadowedHeap h \<or> shadowedDoc x)" by simp
  from "8.IH"(2) [OF a [symmetric]] b
  have 2: "shadowedHeap h2 = (shadowedHeap h1 \<or> shadowedItems xs)" by simp
  from a b 1 2 show ?case by simp
next
  case (10 k x kvs h)
  obtain v h1 where a: "alloc x h = (v, h1)" by (cases "alloc x h")
  obtain ms h2 where b: "alloc_members kvs h1 = (ms, h2)" by (cases "alloc_members kvs h1")
  from "10.IH"(1) a have 1: "shadowedHeap h1 = (shadowedHeap h \<or> shadowedDoc x)" by simp
  from "10.IH"(2) [OF a [symmetric]] b
  have 2: "shadowedHeap h2 = (shadowedHeap h1 \<or> shadowedMembers kvs)"
    and 3: "map fst ms = map fst kvs" by simp_all
  from a b 1 2 3 show ?case by simp
qed simp_all

lemma analyzeTree_returns:
  assumes "\<not> shadowedDoc parsed"
  shows "\<exists>an. analyzeTree parsed maxDepth maxNodes = Inr an"
proof -
  obtain v h where vh: "alloc parsed [] = (v, h)" by (cases "alloc parsed []")
  with alloc_shadowed(1) [of parsed "[]"] assms have ns: "\<not> shadowedHeap h"
    by (simp add: shadowedHeap_def)
  show ?thesis
  proof (cases "traverse h maxDepth maxNodes v 0 \<lparr>nodeCount = 0, depth = 0, visited = {}\<rparr>")
    case (Inl e)
    from traverse_error [OF this] ns show ?thesis by simp
  next
    case (Inr st)
    with vh show ?thesis by (simp add: analyzeTree_def analyzeJsonStructure_def)
  qed
qed

lemma visitCount_le_total:
  "visitCount maxDepth d t \<le> nodeTotal t"
  "visitCountItems maxDepth d xs \<le> nodeTotalItems xs"
  "visitCountMembers maxDepth d kvs \<le> nodeTotalMembers kvs"
  by (induction maxDepth d t and maxDepth d xs and maxDepth d kvs
      rule: visitCount_visitCountItems_visitCountMembers.induct) auto

lemma visitCount_total:
  "d + height t \<le> maxDepth \<Longrightarrow> visitCount maxDepth d t = nodeTotal t"
  "(xs \<noteq> [] \<longrightarrow> d + heightItems xs \<le> maxDepth + 1) \<Longrightarrow> visitCountItems maxDepth d xs = nodeTotalItems xs"
  "(kvs \<noteq> [] \<longrightarrow> d + heightMembers kvs \<le> maxDepth + 1) \<Longrightarrow> visitCountMembers maxDepth d kvs = nodeTotalMembers kvs"
proof (induction maxDepth d t and maxDepth d xs and maxDepth d kvs
      rule: visitCount_visitCountItems_visitCountMembers.induct)
  case (1 maxDepth d xs)
  then show ?case by (cases xs) auto
next
  case (2 maxDepth d kvs)
  then show ?case by (cases kvs) auto
next
  case (5 maxDepth d x xs)
  then show ?case by (cases xs) auto
next
  case (7 maxDepth d k v kvs)
  then show ?case by (cases kvs) auto
qed auto


lemma visitCount_total_only:
  "visitCount maxDepth d t = nodeTotal t \<Longrightarrow> d + height t \<le> maxDepth"
  "visitCountItems maxDepth d xs = nodeTotalItems xs \<Longrightarrow> xs \<noteq> []
     \<Longrightarrow> d + heightItems xs \<le> maxDepth + 1"
  "visitCountMembers maxDepth d kvs = nodeTotalMembers kvs \<Longrightarrow> kvs \<noteq> []
     \<Longrightarrow> d + heightMembers kvs \<le> maxDepth + 1"
proof (induction maxDepth d t and maxDepth d xs and maxDepth d kvs
      rule: visitCount_visitCountItems_visitCountMembers.induct)
  case (1 maxDepth d xs)
  then show ?case by (cases xs) (auto split: if_splits)
next
  case (2 maxDepth d kvs)
  then show ?case by (cases kvs) (auto split: if_splits)
next
  case (5 maxDepth d x xs)
  from visitCount_le_total(1) [of maxDepth d x] visitCount_le_total(2) [of maxDepth d xs] "5.prems"(1)
  have e: "visitCount maxDepth d x = nodeTotal x" "visitCountItems maxDepth d xs = nodeTotalItems xs"
    by simp_all
  from "5.IH"(1) [OF e(1)] "5.IH"(2) [OF e(2)] show ?case by (cases xs) auto
next
  case (7 maxDepth d k v kvs)
  from visitCount_le_total(1) [of maxDepth d v] visitCount_le_total(3) [of maxDepth d kvs] "7.prems"(1)
  have e: "visitCount maxDepth d v = nodeTotal v" "visitCountMembers maxDepth d kvs = nodeTotalMembers kvs"
    by simp_all
  from "7.IH"(1) [OF e(1)] "7.IH"(2) [OF e(2)] show ?case by (cases kvs) auto
qed (auto split: if_splits)

lemma alloc_prefix:
  "prefix h (snd (alloc t h))"
  "prefix h (snd (alloc_items xs h))"
  "prefix h (snd (alloc_members kvs h))"
proof (induction t h and xs h and kvs h rule: alloc_alloc_items_alloc_members.induct)
  case (5 xs h)
  obtain vs h' where a: "alloc_items xs h = (vs, h')" by (cases "alloc_items xs h")
  with 5 have "prefix h h'" by simp
  with a show ?case by (simp add: prefix_def) auto
next
  case (6 kvs h)
  obtain ms h' where a: "alloc_members kvs h = (ms, h')" by (cases "alloc_members kvs h")
  with 6 have "prefix h h'" by simp
  with a show ?case by (simp add: prefix_def) auto
next
  case (8 x xs h)
  obtain v h1 where a: "alloc x h = (v, h1)" by (cases "alloc x h")
  obtain vs h2 where b: "alloc_items xs h1 = (vs, h2)" by (cases "alloc_items xs h1")
  from "8.IH"(1) a have 1: "prefix h h1" by simp
  from "8.IH"(2) [OF a [symmetric]] b have 2: "prefix h1 h2" by simp
  from a b prefix_order.trans [OF 1 2] show ?case by simp
next
  case (10 k x kvs h)
  obtain v h1 where a: "alloc x h = (v, h1)" by (cases "alloc x h")
  obtain ms h2 where b: "alloc_members kvs h1 = (ms, h2)" by (cases "alloc_members kvs h1")
  from "10.IH"(1) a have 1: "prefix h h1" by simp
  from "10.IH"(2) [OF a [symmetric]] b have 2: "prefix h1 h2" by simp
  from a b prefix_order.trans [OF 1 2] show ?case by simp
qed simp_all

lemma deref_prefix: "prefix h1 h \<Longrightarrow> a < length h1 \<Longrightarrow> deref h a = Some (h1 ! a)"
  by (auto simp: prefix_def deref_def nth_append)

lemma countsTo_skip: "countsTo lo hi 0 st (Inr st)"
  by (simp add: countsTo_def)

lemma traverse_scalar:
  assumes "\<And>a. v \<noteq> VRef a" and "nodeCount st + (if d > maxDepth then 0 else 1) < m"
  shows "countsTo lo hi (if d > maxDepth then 0 else 1) st (traverse h maxDepth m v d st)"
proof (cases "d > maxDepth")
  case True
  then show ?thesis by (simp add: traverse_stop countsTo_def)
next
  case False
  with assms(2) have "nodeCount st < m" "d \<le> maxDepth" by simp_all
  note u = traverse_visit [OF this, of h v]
  show ?thesis
  proof (cases v)
    case (VRef a)
    with assms(1) show ?thesis by blast
  qed (use u False in \<open>simp_all add: countsTo_def\<close>)
qed


lemma traverse_alloc:
  "alloc t h0 = (v, h1) \<Longrightarrow> prefix h1 h \<Longrightarrow> \<not> shadowedDoc t \<Longrightarrow>
   fresh (length h0) (length h1) st \<Longrightarrow> nodeCount st + visitCount maxDepth d t < m \<Longrightarrow>
   countsTo (length h0) (length h1) (visitCount maxDepth d t) st (traverse h maxDepth m v d st)"
  "alloc_items xs h0 = (vs, h1) \<Longrightarrow> prefix h1 h \<Longrightarrow> \<not> shadowedItems xs \<Longrightarrow>
   fresh (length h0) (length h1) st \<Longrightarrow> nodeCount st + visitCountItems maxDepth d xs < m \<Longrightarrow>
   countsTo (length h0) (length h1) (visitCountItems maxDepth d xs) st
     (forArray (\<lambda>s. nodeCount s < m) (\<lambda>x s. traverse h maxDepth m x d s) vs st)"
  "alloc_members kvs h0 = (ms, h1) \<Longrightarrow> prefix h1 h \<Longrightarrow> \<not> shadowedMembers kvs \<Longrightarrow>
   fresh (length h0) (length h1) st \<Longrightarrow> nodeCount st + visitCountMembers maxDepth d kvs < m \<Longrightarrow>
   countsTo (length h0) (length h1) (visitCountMembers maxDepth d kvs) st
     (forIn False (\<lambda>s. nodeCount s < m) (\<lambda>kv s. traverse h maxDepth m (snd kv) d s) ms st)"
proof (induction t h0 and xs h0 and kvs h0 arbitrary: v h1 st d and vs h1 st d and ms h1 st d
       rule: alloc_alloc_items_alloc_members.induct)
  case (1 h0)
  from "1.prems"(1) have v: "v = VNull" "h1 = h0" by simp_all
  from "1.prems"(5) show ?case unfolding v
    using traverse_scalar [where v = VNull and st = st and d = d and maxDepth = maxDepth
      and m = m and lo = "length h0" and hi = "length h0" and h = h] by simp
next
  case (2 b h0)
  from "2.prems"(1) have v: "v = VBool b" "h1 = h0" by simp_all
  from "2.prems"(5) show ?case unfolding v
    using traverse_scalar [where v = "VBool b" and st = st and d = d and maxDepth = maxDepth
      and m = m and lo = "length h0" and hi = "length h0" and h = h] by simp
next
  case (3 n h0)
  from "3.prems"(1) have v: "v = VNum n" "h1 = h0" by simp_all
  from "3.prems"(5) show ?case unfolding v
    using traverse_scalar [where v = "VNum n" and st = st and d = d and maxDepth = maxDepth
      and m = m and lo = "length h0" and hi = "length h0" and h = h] by simp
next
  case (4 s h0)
  from "4.prems"(1) have v: "v = VStr s" "h1 = h0" by simp_all
  from "4.prems"(5) show ?case unfolding v
    using traverse_scalar [where v = "VStr s" and st = st and d = d and maxDepth = maxDepth
      and m = m and lo = "length h0" and hi = "length h0" and h = h] by simp
next
  case (5 xs h0)
  obtain vs h' where a: "alloc_items xs h0 = (vs, h')" by (cases "alloc_items xs h0")
  with "5.prems"(1) have v: "v = VRef (length h')" and h1: "h1 = h' @ [ArrayObj vs]" by simp_all
  from alloc_prefix(2) [of h0 xs] a have le: "length h0 \<le> length h'" by (simp add: prefix_length_le)
  show ?case
  proof (cases "d > maxDepth")
    case True
    then show ?thesis by (simp add: traverse_stop countsTo_def)
  next
    case False
    with "5.prems"(5) have lt: "nodeCount st < m" and dle: "d \<le> maxDepth" by simp_all
    from "5.prems"(4) le h1 have nv: "length h' \<notin> visited st" by (auto simp: fresh_def)
    from deref_prefix [OF "5.prems"(2), of "length h'"] h1
    have dr: "deref h (length h') = Some (ArrayObj vs)" by simp
    define st2 where "st2 = st\<lparr>nodeCount := nodeCount st + 1, depth := max (depth st) d,
                       visited := insert (length h') (visited st)\<rparr>"
    from traverse_visit [OF lt dle, of h v] v nv dr
    have u: "traverse h maxDepth m v d st =
       forArray (\<lambda>s. nodeCount s < m) (\<lambda>x s. traverse h maxDepth m x (d + 1) s) vs st2"
      by (simp add: st2_def)
    from "5.prems"(2) h1 have p: "prefix h' h" by (auto simp: prefix_def)
    from "5.prems"(3) have ns: "\<not> shadowedItems xs" by simp
    from "5.prems"(4) le h1 have f: "fresh (length h0) (length h') st2"
      by (auto simp: fresh_def st2_def)
    from "5.prems"(5) False have c: "nodeCount st2 + visitCountItems maxDepth (d + 1) xs < m"
      by (simp add: st2_def)
    from "5.IH" [OF a p ns f c] obtain st' where
      r: "forArray (\<lambda>s. nodeCount s < m) (\<lambda>x s. traverse h maxDepth m x (d + 1) s) vs st2 = Inr st'"
      and c': "nodeCount st' = nodeCount st2 + visitCountItems maxDepth (d + 1) xs"
      and v': "visited st' \<subseteq> visited st2 \<union> {length h0..<length h'}"
      by (auto simp: countsTo_def)
    have "visited st2 = insert (length h') (visited st)" by (simp add: st2_def)
    with v' le h1 have "visited st' \<subseteq> visited st \<union> {length h0..<length h1}" by fastforce
    moreover from c' False have "nodeCount st' = nodeCount st + visitCount maxDepth d (JArr xs)"
      by (simp add: st2_def)
    ultimately show ?thesis using u r by (simp add: countsTo_def)
  qed
next
  case (6 kvs h0)
  obtain ms h' where a: "alloc_members kvs h0 = (ms, h')" by (cases "alloc_members kvs h0")
  with "6.prems"(1) have v: "v = VRef (length h')" and h1: "h1 = h' @ [PlainObj ms]" by simp_all
  from alloc_prefix(3) [of h0 kvs] a have le: "length h0 \<le> length h'" by (simp add: prefix_length_le)
  from alloc_shadowed(3) [of kvs h0] a have keys: "map fst ms = map fst kvs" by simp
  from hasOwn_keys [OF keys] "6.prems"(3) have nsh: "hasOwn ms ''hasOwnProperty'' = False" by simp
  show ?case
  proof (cases "d > maxDepth")
    case True
    then show ?thesis by (simp add: traverse_stop countsTo_def)
  next
    case False
    with "6.prems"(5) have lt: "nodeCount st < m" and dle: "d \<le> maxDepth" by simp_all
    from "6.prems"(4) le h1 have nv: "length h' \<notin> visited st" by (auto simp: fresh_def)
    from deref_prefix [OF "6.prems"(2), of "length h'"] h1
    have dr: "deref h (length h') = Some (PlainObj ms)" by simp
    define st2 where "st2 = st\<lparr>nodeCount := nodeCount st + 1, depth := max (depth st) d,
                       visited := insert (length h') (visited st)\<rparr>"
    from traverse_visit [OF lt dle, of h v] v nv dr nsh
    have u: "traverse h maxDepth m v d st =
       forIn False (\<lambda>s. nodeCount s < m) (\<lambda>kv s. traverse h maxDepth m (snd kv) (d + 1) s) ms st2"
      by (simp add: st2_def)
    from "6.prems"(2) h1 have p: "prefix h' h" by (auto simp: prefix_def)
    from "6.prems"(3) have ns: "\<not> shadowedMembers kvs" by simp
    from "6.prems"(4) le h1 have f: "fresh (length h0) (length h') st2"
      by (auto simp: fresh_def st2_def)
    from "6.prems"(5) False have c: "nodeCount st2 + visitCountMembers maxDepth (d + 1) kvs < m"
      by (simp add: st2_def)
    from "6.IH" [OF a p ns f c] obtain st' where
      r: "forIn False (\<lambda>s. nodeCount s < m) (\<lambda>kv s. traverse h maxDepth m (snd kv) (d + 1) s) ms st2 = Inr st'"
      and c': "nodeCount st' = nodeCount st2 + visitCountMembers maxDepth (d + 1) kvs"
      and v': "visited st' \<subseteq> visited st2 \<union> {length h0..<length h'}"
      by (auto simp: countsTo_def)
    have "visited st2 = insert (length h') (visited st)" by (simp add: st2_def)
    with v' le h1 have "visited st' \<subseteq> visited st \<union> {length h0..<length h1}" by fastforce
    moreover from c' False have "nodeCount st' = nodeCount st + visitCount maxDepth d (JObj kvs)"
      by (simp add: st2_def)
    ultimately show ?thesis using u r by (simp add: countsTo_def)
  qed
next
  case (7 h0)
  then show ?case by (auto simp: countsTo_def)
next
  case (8 x xs h0)
  obtain v1 ha where a: "alloc x h0 = (v1, ha)" by (cases "alloc x h0")
  obtain vs' hb where b: "alloc_items xs ha = (vs', hb)" by (cases "alloc_items xs ha")
  from a b "8.prems"(1) have vs: "vs = v1 # vs'" and h1: "h1 = hb" by simp_all
  from alloc_prefix(1) [of h0 x] a have p1: "prefix h0 ha" by simp
  from alloc_prefix(2) [of ha xs] b have p2: "prefix ha hb" by simp
  from p1 p2 have le: "length h0 \<le> length ha" "length ha \<le> length hb"
    by (simp_all add: prefix_length_le)
  from p2 "8.prems"(2) h1 have pa: "prefix ha h" by (auto intro: prefix_order.trans)
  from "8.prems"(4) h1 le have fa: "fresh (length h0) (length ha) st" by (auto simp: fresh_def)
  from "8.prems"(5) have ca: "nodeCount st + visitCount maxDepth d x < m" by simp
  from "8.prems"(3) have nsx: "\<not> shadowedDoc x" and nsxs: "\<not> shadowedItems xs" by simp_all
  from "8.IH"(1) [OF a pa nsx fa ca] obtain st1 where
    r1: "traverse h maxDepth m v1 d st = Inr st1"
    and c1: "nodeCount st1 = nodeCount st + visitCount maxDepth d x"
    and v1: "visited st1 \<subseteq> visited st \<union> {length h0..<length ha}"
    by (auto simp: countsTo_def)
  from "8.prems"(2) h1 have pb: "prefix hb h" by simp
  from "8.prems"(4) h1 le v1 have fb: "fresh (length ha) (length hb) st1"
    unfolding fresh_def by fastforce
  from "8.prems"(5) c1 have cb: "nodeCount st1 + visitCountItems maxDepth d xs < m" by simp
  from "8.IH"(2) [OF a [symmetric] b pb nsxs fb cb] obtain st2 where
    r2: "forArray (\<lambda>s. nodeCount s < m) (\<lambda>x s. traverse h maxDepth m x d s) vs' st1 = Inr st2"
    and c2: "nodeCount st2 = nodeCount st1 + visitCountItems maxDepth d xs"
    and v2: "visited st2 \<subseteq> visited st1 \<union> {length ha..<length hb}"
    by (auto simp: countsTo_def)
  from "8.prems"(5) have lt: "nodeCount st < m" by simp
  from v1 v2 le have "visited st2 \<subseteq> visited st \<union> {length h0..<length hb}" by fastforce
  with vs h1 lt r1 r2 c1 c2 show ?case by (simp add: countsTo_def)
next
  case (9 h0)
  then show ?case by (auto simp: countsTo_def)
next
  case (10 k x kvs h0)
  obtain v1 ha where a: "alloc x h0 = (v1, ha)" by (cases "alloc x h0")
  obtain ms' hb where b: "alloc_members kvs ha = (ms', hb)" by (cases "alloc_members kvs ha")
  from a b "10.prems"(1) have ms: "ms = (k, v1) # ms'" and h1: "h1 = hb" by simp_all
  from alloc_prefix(1) [of h0 x] a have p1: "prefix h0 ha" by simp
  from alloc_prefix(3) [of ha kvs] b have p2: "prefix ha hb" by simp
  from p1 p2 have le: "length h0 \<le> length ha" "length ha \<le> length hb"
    by (simp_all add: prefix_length_le)
  from p2 "10.prems"(2) h1 have pa: "prefix ha h" by (auto intro: prefix_order.trans)
  from "10.prems"(4) h1 le have fa: "fresh (length h0) (length ha) st" by (auto simp: fresh_def)
  from "10.prems"(5) have ca: "nodeCount st + visitCount maxDepth d x < m" by simp
  from "10.prems"(3) have nsx: "\<not> shadowedDoc x" and nsxs: "\<not> shadowedMembers kvs" by simp_all
  from "10.IH"(1) [OF a pa nsx fa ca] obtain st1 where
    r1: "traverse h maxDepth m v1 d st = Inr st1"
    and c1: "nodeCount st1 = nodeCount st + visitCount maxDepth d x"
    and v1: "visited st1 \<subseteq> visited st \<union> {length h0..<length ha}"
    by (auto simp: countsTo_def)
  from "10.prems"(2) h1 have pb: "prefix hb h" by simp
  from "10.prems"(4) h1 le v1 have fb: "fresh (length ha) (length hb) st1"
    unfolding fresh_def by fastforce
  from "10.prems"(5) c1 have cb: "nodeCount st1 + visitCountMembers maxDepth d kvs < m" by simp
  from "10.IH"(2) [OF a [symmetric] b pb nsxs fb cb] obtain st2 where
    r2: "forIn False (\<lambda>s. nodeCount s < m) (\<lambda>kv s. traverse h maxDepth m (snd kv) d s) ms' st1 = Inr st2"
    and c2: "nodeCount st2 = nodeCount st1 + visitCountMembers maxDepth d kvs"
    and v2: "visited st2 \<subseteq> visited st1 \<union> {length ha..<length hb}"
    by (auto simp: countsTo_def)
  from "10.prems"(5) have lt: "nodeCount st < m" by simp
  from v1 v2 le have "visited st2 \<subseteq> visited st \<union> {length h0..<length hb}" by fastforce
  with ms h1 lt r1 r2 c1 c2 show ?case by (simp add: countsTo_def)
qed


lemma analyzeTree_nodeCount:
  assumes ns: "\<not> shadowedDoc t"
  shows "\<exists>an. analyzeTree t maxDepth m = Inr an
            \<and> an_nodeCount an = min m (visitCount maxDepth 0 t)"
proof -
  let ?init = "\<lparr>nodeCount = 0, depth = 0, visited = {}\<rparr>"
  let ?n = "visitCount maxDepth 0 t"
  obtain v h where vh: "alloc t [] = (v, h)" by (cases "alloc t []")
  have "fresh (length ([] :: heap)) (length h) ?init" by (simp add: fresh_def)
  moreover have "nodeCount ?init + ?n < Suc ?n" by simp
  ultimately have "countsTo (length ([] :: heap)) (length h) ?n ?init
      (traverse h maxDepth (Suc ?n) v 0 ?init)"
    using traverse_alloc(1) [OF vh _ ns, of h ?init maxDepth 0 "Suc ?n"] by simp
  then obtain sM where big: "traverse h maxDepth (Suc ?n) v 0 ?init = Inr sM"
    and cM: "nodeCount sM = ?n" by (auto simp: countsTo_def)
  from analyzeTree_returns [OF ns, of maxDepth m] obtain an where
    an: "analyzeTree t maxDepth m = Inr an" by blast
  with vh obtain s where run: "traverse h maxDepth m v 0 ?init = Inr s"
    and cnt: "an_nodeCount an = nodeCount s"
    by (auto simp: analyzeTree_def analyzeJsonStructure_def split: sum.splits)
  have "nodeCount s = min m ?n"
  proof (cases "m \<le> Suc ?n")
    case True
    have "agree m ?init ?init" by (simp add: agree_def)
    from traverse_agree [OF True this, of h maxDepth v 0] run big
    have "agree m s sM" by (simp add: agreeResult_def)
    with cM show ?thesis by (auto simp: agree_def)
  next
    case False
    then have le: "Suc ?n \<le> m" by simp
    have "agree (Suc ?n) ?init ?init" by (simp add: agree_def)
    from traverse_agree [OF le this, of h maxDepth v 0] run big
    have "agree (Suc ?n) sM s" by (simp add: agreeResult_def)
    with cM le show ?thesis by (auto simp: agree_def)
  qed
  with an cnt show ?thesis by simp
qed

text \<open>
  The analyzer with number budgets is the analyzer with natural budgets at the floor of
  \<open>maxDepth\<close> and the ceiling of \<open>maxNodes\<close>; with a negative \<open>maxDepth\<close> it counts nothing.
\<close>

lemma nodes_guard: "((maxNodes :: rat) \<le> of_nat n) = (nat \<lceil>maxNodes\<rceil> \<le> n)"
proof -
  have "(maxNodes \<le> of_nat n) = (maxNodes \<le> of_int (int n))" by simp
  also have "\<dots> = (\<lceil>maxNodes\<rceil> \<le> int n)" by (simp only: ceiling_le_iff)
  also have "\<dots> = (nat \<lceil>maxNodes\<rceil> \<le> n)" by linarith
  finally show ?thesis .
qed

lemma nodes_cond: "(\<lambda>s. of_nat (nodeCount s) < (maxNodes :: rat)) = (\<lambda>s. nodeCount s < nat \<lceil>maxNodes\<rceil>)"
proof
  fix s :: "'a counters_scheme"
  from nodes_guard [of maxNodes "nodeCount s"]
  show "(of_nat (nodeCount s) < maxNodes) = (nodeCount s < nat \<lceil>maxNodes\<rceil>)" by (simp add: not_le [symmetric])
qed

lemma depth_guard: "0 \<le> (maxDepth :: rat) \<Longrightarrow> (maxDepth < of_nat d) = (nat \<lfloor>maxDepth\<rfloor> < d)"
proof -
  assume p: "0 \<le> maxDepth"
  have "(maxDepth < of_nat d) = (maxDepth < of_int (int d))" by simp
  also have "\<dots> = (\<lfloor>maxDepth\<rfloor> < int d)" by (simp only: floor_less_iff)
  also have "\<dots> = (nat \<lfloor>maxDepth\<rfloor> < d)" using p by linarith
  finally show ?thesis .
qed

lemma traverse_num_negative:
  "maxDepth < 0 \<Longrightarrow> traverse_num h maxDepth maxNodes obj currentDepth st = Inr st"
proof -
  assume "maxDepth < 0"
  moreover have "(0 :: rat) \<le> of_nat currentDepth" by simp
  ultimately have "maxDepth < of_nat currentDepth" by (rule less_le_trans)
  then show ?thesis by (subst traverse_num.simps) simp
qed

lemma traverse_num_traverse:
  "0 \<le> maxDepth \<Longrightarrow>
   traverse_num h maxDepth maxNodes obj currentDepth st =
     traverse h (nat \<lfloor>maxDepth\<rfloor>) (nat \<lceil>maxNodes\<rceil>) obj currentDepth st"
proof (induction h maxDepth maxNodes obj currentDepth st rule: traverse_num.induct)
  case (1 h maxDepth maxNodes obj currentDepth st)
  note p = "1.prems"
  let ?D = "nat \<lfloor>maxDepth\<rfloor>" and ?N = "nat \<lceil>maxNodes\<rceil>"
  show ?case
  proof (cases "?N \<le> nodeCount st \<or> ?D < currentDepth")
    case True
    then have "maxNodes \<le> of_nat (nodeCount st) \<or> maxDepth < of_nat currentDepth"
      by (simp add: nodes_guard depth_guard [OF p])
    then have "traverse_num h maxDepth maxNodes obj currentDepth st = Inr st"
      by (subst traverse_num.simps) auto
    with traverse_stop [OF True] show ?thesis by simp
  next
    case False
    then have g: "nodeCount st < ?N" "currentDepth \<le> ?D" by simp_all
    from False have g': "\<not> maxNodes \<le> of_nat (nodeCount st)" "\<not> maxDepth < of_nat currentDepth"
      by (simp_all add: nodes_guard depth_guard [OF p])
    let ?st1 = "st\<lparr>nodeCount := nodeCount st + 1, depth := max (depth st) currentDepth\<rparr>"
    show ?thesis
    proof (cases obj)
      case (VRef a)
      show ?thesis
      proof (cases "a \<in> visited st")
        case True
        then show ?thesis
          by (subst traverse_num.simps) (simp add: traverse_visit [OF g] VRef g' Let_def)
      next
        case nv: False
        let ?st2 = "?st1\<lparr>visited := insert a (visited ?st1)\<rparr>"
        show ?thesis
        proof (cases "deref h a")
          case None
          then show ?thesis
            by (subst traverse_num.simps) (simp add: traverse_visit [OF g] VRef g' nv Let_def)
        next
          case (Some ob)
          show ?thesis
          proof (cases ob)
            case (ArrayObj xs)
            have ih: "\<And>x s. x \<in> set xs \<Longrightarrow>
                traverse_num h maxDepth maxNodes x (Suc currentDepth) s =
                traverse h ?D ?N x (Suc currentDepth) s"
              using "1.IH"(1) [OF g' refl VRef _ refl _ _ _ p] nv Some ArrayObj by simp
            have "forArray (\<lambda>s. of_nat (nodeCount s) < maxNodes)
                     (\<lambda>x s. traverse_num h maxDepth maxNodes x (currentDepth + 1) s) xs ?st2 =
                  forArray (\<lambda>s. nodeCount s < ?N)
                     (\<lambda>x s. traverse h ?D ?N x (currentDepth + 1) s) xs ?st2"
              by (rule forArray_cong) (simp_all add: nodes_cond ih)
            then show ?thesis
              by (subst traverse_num.simps)
                 (simp add: traverse_visit [OF g] VRef g' nv Some ArrayObj Let_def)
          next
            case (PlainObj kvs)
            have ih: "\<And>kv s. kv \<in> set kvs \<Longrightarrow>
                traverse_num h maxDepth maxNodes (snd kv) (Suc currentDepth) s =
                traverse h ?D ?N (snd kv) (Suc currentDepth) s"
              using "1.IH"(2) [OF g' refl VRef _ refl _ _ _ p] nv Some PlainObj by simp
            have "forIn (hasOwn kvs ''hasOwnProperty'') (\<lambda>s. of_nat (nodeCount s) < maxNodes)
                     (\<lambda>kv s. traverse_num h maxDepth maxNodes (snd kv) (currentDepth + 1) s) kvs ?st2 =
                  forIn (hasOwn kvs ''hasOwnProperty'') (\<lambda>s. nodeCount s < ?N)
                     (\<lambda>kv s. traverse h ?D ?N (snd kv) (currentDepth + 1) s) kvs ?st2"
              by (rule forIn_cong) (simp_all add: nodes_cond ih)
            then show ?thesis
              by (subst traverse_num.simps)
                 (simp add: traverse_visit [OF g] VRef g' nv Some PlainObj Let_def)
          qed
        qed
      qed
    qed (subst traverse_num.simps, simp add: traverse_visit [OF g] g' Let_def)+
  qed
qed


lemma analyzeJsonStructure_num_natural:
  "0 \<le> maxDepth \<Longrightarrow>
   analyzeJsonStructure_num h data maxDepth maxNodes =
     analyzeJsonStructure h data (nat \<lfloor>maxDepth\<rfloor>) (nat \<lceil>maxNodes\<rceil>)"
  by (simp add: analyzeJsonStructure_num_def analyzeJsonStructure_def traverse_num_traverse)

lemma analyzeJsonStructure_num_negative:
  "maxDepth < 0 \<Longrightarrow>
   analyzeJsonStructure_num h data maxDepth maxNodes =
     Inr \<lparr>an_depth = 0, an_nodeCount = 0, an_type = getJsonTypeAt h data,
          hasCircularReferences = False\<rparr>"
  by (simp add: analyzeJsonStructure_num_def traverse_num_negative)

lemma analyzeJsonStructure_no_nodes:
  "analyzeJsonStructure h data maxDepth 0 =
     Inr \<lparr>an_depth = 0, an_nodeCount = 0, an_type = getJsonTypeAt h data,
          hasCircularReferences = False\<rparr>"
  by (simp add: analyzeJsonStructure_def traverse_stop)

lemma analyzeJsonStructure_bounds:
  assumes "analyzeJsonStructure h data maxDepth maxNodes = Inr r"
  shows "an_nodeCount r \<le> maxNodes \<and> an_depth r \<le> maxDepth"
proof -
  from assms obtain st where
    t: "traverse h maxDepth maxNodes data 0 \<lparr>nodeCount = 0, depth = 0, visited = {}\<rparr> = Inr st"
    and r: "r = \<lparr>an_depth = depth st, an_nodeCount = nodeCount st,
               an_type = getJsonTypeAt h data, hasCircularReferences = False\<rparr>"
    by (auto simp: analyzeJsonStructure_def split: sum.splits)
  from traverse_within_budgets [OF t] r show ?thesis by simp
qed

lemma analyzeJsonStructure_agree:
  assumes mm: "m \<le> m'"
  shows "(analyzeJsonStructure h data maxDepth m = Inr r \<and>
      analyzeJsonStructure h data maxDepth m' = Inr r' \<longrightarrow> an_nodeCount r \<le> an_nodeCount r')
   \<and> (analyzeJsonStructure h data maxDepth m = Inr r \<and> an_nodeCount r < m \<longrightarrow>
        analyzeJsonStructure h data maxDepth m' = Inr r)
   \<and> (analyzeJsonStructure h data maxDepth m = Inl e \<longrightarrow>
        analyzeJsonStructure h data maxDepth m' = Inl e)"
proof -
  let ?init = "\<lparr>nodeCount = 0, depth = 0, visited = {}\<rparr>"
  have "agree m ?init ?init" by (simp add: agree_def)
  from traverse_agree [OF mm this]
  have ag: "agreeResult m (traverse h maxDepth m data 0 ?init) (traverse h maxDepth m' data 0 ?init)" .
  show ?thesis
  proof (cases "traverse h maxDepth m data 0 ?init")
    case (Inl e1)
    with ag have "traverse h maxDepth m' data 0 ?init = Inl e1" by (simp add: agreeResult_def)
    with Inl show ?thesis by (simp add: analyzeJsonStructure_def)
  next
    case s: (Inr s)
    show ?thesis
    proof (cases "traverse h maxDepth m' data 0 ?init")
      case (Inl e2)
      with ag s have "nodeCount s = m" by (simp add: agreeResult_def)
      with s Inl show ?thesis by (auto simp: analyzeJsonStructure_def)
    next
      case (Inr s')
      with ag s have "agree m s s'" by (simp add: agreeResult_def)
      with s Inr show ?thesis by (auto simp: analyzeJsonStructure_def agree_def)
    qed
  qed
qed

lemma analyzeJsonStructure_num_agree:
  assumes qq: "q \<le> q'"
  shows "(analyzeJsonStructure_num h data D q = Inr a \<and>
      analyzeJsonStructure_num h data D q' = Inr a' \<longrightarrow> an_nodeCount a \<le> an_nodeCount a')
   \<and> (analyzeJsonStructure_num h data D q = Inr a \<and> of_nat (an_nodeCount a) < q \<longrightarrow>
        analyzeJsonStructure_num h data D q' = Inr a)
   \<and> (analyzeJsonStructure_num h data D q = Inl e \<longrightarrow>
        analyzeJsonStructure_num h data D q' = Inl e)"
proof (cases "D < 0")
  case True
  then show ?thesis by (auto simp: analyzeJsonStructure_num_negative)
next
  case False
  then have p: "0 \<le> D" by simp
  from qq have mm: "nat \<lceil>q\<rceil> \<le> nat \<lceil>q'\<rceil>" by (simp add: ceiling_mono nat_mono)
  have lt: "of_nat (an_nodeCount a) < q \<Longrightarrow> an_nodeCount a < nat \<lceil>q\<rceil>"
    using nodes_guard [of q "an_nodeCount a"] by simp
  from analyzeJsonStructure_agree [OF mm, of h data "nat \<lfloor>D\<rfloor>" a a' e] lt
  show ?thesis by (auto simp: analyzeJsonStructure_num_natural [OF p])
qed

lemma analyzeJsonStructure_num_returns:
  assumes "\<not> shadowedHeap h"
  shows "\<exists>r. analyzeJsonStructure_num h data D N = Inr r \<and> \<not> hasCircularReferences r"
proof (cases "D < 0")
  case True
  then show ?thesis by (simp add: analyzeJsonStructure_num_negative)
next
  case False
  then have p: "0 \<le> D" by simp
  let ?init = "\<lparr>nodeCount = 0, depth = 0, visited = {}\<rparr>"
  show ?thesis
  proof (cases "traverse h (nat \<lfloor>D\<rfloor>) (nat \<lceil>N\<rceil>) data 0 ?init")
    case (Inl e)
    from traverse_error [OF this] assms show ?thesis by simp
  next
    case (Inr st)
    then show ?thesis
      by (simp add: analyzeJsonStructure_num_natural [OF p] analyzeJsonStructure_def)
  qed
qed

text \<open>
  Claim C10 (as amended). Whenever the analyzer returns, for budgets that are arbitrary
  finite numbers: the node count is at most \<open>max 0 \<lceil>maxNodes\<rceil>\<close> and the depth at most
  \<open>max 0 maxDepth\<close>. So \<open>nodeCount \<le> maxNodes\<close> holds when \<open>maxNodes\<close> is a non-negative integer
  and \<open>depth \<le> maxDepth\<close> when \<open>maxDepth\<close> is not negative; with a budget
  \<open>maxNodes \<le> 0\<close> or \<open>maxDepth < 0\<close> both counters are 0, which is above a negative budget.
  At natural budgets the analyzer is the one of the main development, for which
  \<open>nodeCount \<le> maxNodes\<close> and \<open>depth \<le> maxDepth\<close>.
\<close>

theorem analyzeJsonStructure_within_budgets:
  "(analyzeJsonStructure_num h data maxDepth maxNodes = Inr r \<longrightarrow>
      of_nat (an_nodeCount r) \<le> max 0 (of_int \<lceil>maxNodes\<rceil> :: rat)
    \<and> of_nat (an_depth r) \<le> max 0 maxDepth
    \<and> (0 \<le> maxNodes \<and> maxNodes \<in> \<int> \<longrightarrow> of_nat (an_nodeCount r) \<le> maxNodes)
    \<and> (0 \<le> maxDepth \<longrightarrow> of_nat (an_depth r) \<le> maxDepth)
    \<and> (maxNodes \<le> 0 \<or> maxDepth < 0 \<longrightarrow> an_nodeCount r = 0 \<and> an_depth r = 0))
 \<and> analyzeJsonStructure_num h data (of_nat d) (of_nat n) = analyzeJsonStructure h data d n
 \<and> (analyzeJsonStructure h data d n = Inr r' \<longrightarrow> an_nodeCount r' \<le> n \<and> an_depth r' \<le> d)"
proof (intro conjI impI)
  show "analyzeJsonStructure_num h data (of_nat d) (of_nat n) = analyzeJsonStructure h data d n"
    using analyzeJsonStructure_num_natural [of "of_nat d" h data "of_nat n"] by simp
next
  assume "analyzeJsonStructure h data d n = Inr r'"
  from analyzeJsonStructure_bounds [OF this]
  show "an_nodeCount r' \<le> n" and "an_depth r' \<le> d" by simp_all
next
  assume a: "analyzeJsonStructure_num h data maxDepth maxNodes = Inr r"
  have zero: "maxDepth < 0 \<Longrightarrow> an_nodeCount r = 0 \<and> an_depth r = 0"
    using a by (auto simp: analyzeJsonStructure_num_negative)
  have nat: "0 \<le> maxDepth \<Longrightarrow>
      an_nodeCount r \<le> nat \<lceil>maxNodes\<rceil> \<and> an_depth r \<le> nat \<lfloor>maxDepth\<rfloor>"
    using a analyzeJsonStructure_bounds [of h data "nat \<lfloor>maxDepth\<rfloor>" "nat \<lceil>maxNodes\<rceil>" r]
    by (simp add: analyzeJsonStructure_num_natural)
  have none: "maxNodes \<le> 0 \<Longrightarrow> an_nodeCount r = 0 \<and> an_depth r = 0"
  proof (cases "maxDepth < 0")
    case True
    then show ?thesis by (rule zero)
  next
    case False
    assume "maxNodes \<le> 0"
    then have "\<lceil>maxNodes\<rceil> \<le> 0" by (simp add: ceiling_le_iff)
    then have "nat \<lceil>maxNodes\<rceil> = 0" by simp
    with a False show ?thesis
      by (simp add: analyzeJsonStructure_num_natural analyzeJsonStructure_no_nodes) auto
  qed
  have count: "int (an_nodeCount r) \<le> max 0 \<lceil>maxNodes\<rceil>"
  proof (cases "maxDepth < 0")
    case True
    with zero show ?thesis by simp
  next
    case False
    with nat have "an_nodeCount r \<le> nat \<lceil>maxNodes\<rceil>" by simp
    then show ?thesis by linarith
  qed
  have "(of_nat (an_nodeCount r) :: rat) = of_int (int (an_nodeCount r))" by simp
  also have "\<dots> \<le> of_int (max 0 \<lceil>maxNodes\<rceil>)" using count by (simp only: of_int_le_iff)
  also have "\<dots> = max 0 (of_int \<lceil>maxNodes\<rceil>)" by (simp add: max_def)
  finally show c1: "of_nat (an_nodeCount r) \<le> max 0 (of_int \<lceil>maxNodes\<rceil> :: rat)" .
  have dep: "0 \<le> maxDepth \<Longrightarrow> of_nat (an_depth r) \<le> maxDepth"
  proof -
    assume p: "0 \<le> maxDepth"
    with nat have "an_depth r \<le> nat \<lfloor>maxDepth\<rfloor>" by simp
    then have "int (an_depth r) \<le> \<lfloor>maxDepth\<rfloor>" using p by linarith
    then have "of_int (int (an_depth r)) \<le> maxDepth" by (simp only: le_floor_iff)
    then show ?thesis by simp
  qed
  show "of_nat (an_depth r) \<le> max 0 maxDepth"
  proof (cases "maxDepth < 0")
    case True
    with zero show ?thesis by simp
  next
    case False
    with dep show ?thesis by (simp add: max_def)
  qed
  {
    assume i: "0 \<le> maxNodes \<and> maxNodes \<in> \<int>"
    then have "of_int \<lceil>maxNodes\<rceil> = maxNodes" by (auto elim!: Ints_cases)
    with c1 i show "of_nat (an_nodeCount r) \<le> maxNodes" by (simp add: max_def split: if_splits)
  }
  {
    assume "0 \<le> maxDepth"
    then show "of_nat (an_depth r) \<le> maxDepth" by (rule dep)
  }
  {
    assume "maxNodes \<le> 0 \<or> maxDepth < 0"
    with zero none show "an_nodeCount r = 0" and "an_depth r = 0" by auto
  }
qed

lemma exampleDoc_alloc:
  "alloc exampleDoc [] =
     (VRef 2, [PlainObj [(''b'', VNum (Num 2))], ArrayObj [VNum (Num 1), VRef 0], PlainObj [(''a'', VRef 1)]])"
  by (simp add: exampleDoc_def)

lemma exampleDoc_budget3:
  "analyzeTree exampleDoc 100 3 =
     Inr \<lparr>an_depth = 2, an_nodeCount = 3, an_type = ''object'', hasCircularReferences = False\<rparr>"
  by (simp add: analyzeTree_def exampleDoc_alloc analyzeJsonStructure_def traverse_eval hasOwn_def)

lemma exampleDoc_depth1:
  "analyzeTree exampleDoc 1 10000 =
     Inr \<lparr>an_depth = 1, an_nodeCount = 2, an_type = ''object'', hasCircularReferences = False\<rparr>"
  by (simp add: analyzeTree_def exampleDoc_alloc analyzeJsonStructure_def traverse_eval hasOwn_def)

lemma exampleDoc_full:
  "analyzeTree exampleDoc 100 10000 =
     Inr \<lparr>an_depth = 3, an_nodeCount = 5, an_type = ''object'', hasCircularReferences = False\<rparr>"
  by (simp add: analyzeTree_def exampleDoc_alloc analyzeJsonStructure_def traverse_eval hasOwn_def)

text \<open>
  The document \<^verbatim>\<open>{"a":[1,{"b":2}]}\<close> has 5 nodes; with \<open>maxNodes = 3\<close> the analyzer
  reports 3.
\<close>

theorem analyzeJsonStructure_within_budgets_witness:
  "analyzeJsonStructure_num
     [PlainObj [(''b'', VNum (Num 2))], ArrayObj [VNum (Num 1), VRef 0], PlainObj [(''a'', VRef 1)]]
     (VRef 2) 100 3 =
     Inr \<lparr>an_depth = 2, an_nodeCount = 3, an_type = ''object'', hasCircularReferences = False\<rparr>
 \<and> nodeTotal exampleDoc = 5
 \<and> (of_nat (an_nodeCount
       \<lparr>an_depth = 2, an_nodeCount = 3, an_type = ''object'', hasCircularReferences = False\<rparr>) :: rat)
      \<le> 3
 \<and> (of_nat (an_depth
       \<lparr>an_depth = 2, an_nodeCount = 3, an_type = ''object'', hasCircularReferences = False\<rparr>) :: rat)
      \<le> 100"
proof -
  let ?h = "[PlainObj [(''b'', VNum (Num 2))], ArrayObj [VNum (Num 1), VRef 0], PlainObj [(''a'', VRef 1)]]"
  let ?r = "\<lparr>an_depth = 2, an_nodeCount = 3, an_type = ''object'', hasCircularReferences = False\<rparr>"
  have e: "analyzeJsonStructure ?h (VRef 2) 100 3 = Inr ?r"
    using exampleDoc_budget3 by (simp add: analyzeTree_def exampleDoc_alloc)
  have n: "analyzeJsonStructure_num ?h (VRef 2) 100 3 = Inr ?r"
    using analyzeJsonStructure_num_natural [of 100 ?h "VRef 2" 3] e by simp
  from analyzeJsonStructure_within_budgets [of ?h "VRef 2" 100 3 ?r 100 3 ?r] n e
  show ?thesis by (simp add: exampleDoc_def)
qed

text \<open>
  Claim C10 as it was stated fails at budgets that are not non-negative integers: with
  \<open>maxNodes = -1\<close> the analyzer reports the node count 0; with \<open>maxNodes = 2.5\<close> on
  \<^verbatim>\<open>[1,2]\<close> it reports 3; with \<open>maxDepth = -1\<close> it reports the depth 0.
\<close>

theorem analyzeJsonStructure_within_budgets_counterexample:
  "analyzeJsonStructure_num [] (VNum (Num 1)) 100 (- 1) =
     Inr \<lparr>an_depth = 0, an_nodeCount = 0, an_type = ''number'', hasCircularReferences = False\<rparr>
 \<and> (- 1 :: rat) < of_nat 0
 \<and> analyzeJsonStructure_num [ArrayObj [VNum (Num 1), VNum (Num 2)]] (VRef 0) 100 (5 / 2) =
     Inr \<lparr>an_depth = 1, an_nodeCount = 3, an_type = ''array'', hasCircularReferences = False\<rparr>
 \<and> (5 / 2 :: rat) < of_nat 3
 \<and> analyzeJsonStructure_num [] (VNum (Num 1)) (- 1) 10000 =
     Inr \<lparr>an_depth = 0, an_nodeCount = 0, an_type = ''number'', hasCircularReferences = False\<rparr>"
proof -
  have "\<lceil>5 / 2 :: rat\<rceil> = 3" by (rule ceiling_unique) simp_all
  then have c: "nat \<lceil>5 / 2 :: rat\<rceil> = 3" by simp
  have 1: "analyzeJsonStructure_num [] (VNum (Num 1)) 100 (- 1) =
     Inr \<lparr>an_depth = 0, an_nodeCount = 0, an_type = ''number'', hasCircularReferences = False\<rparr>"
    by (simp add: analyzeJsonStructure_num_natural analyzeJsonStructure_no_nodes)
  have 2: "analyzeJsonStructure_num [ArrayObj [VNum (Num 1), VNum (Num 2)]] (VRef 0) 100 (5 / 2) =
     Inr \<lparr>an_depth = 1, an_nodeCount = 3, an_type = ''array'', hasCircularReferences = False\<rparr>"
    by (simp add: analyzeJsonStructure_num_natural c analyzeJsonStructure_def traverse_eval)
  have 3: "analyzeJsonStructure_num [] (VNum (Num 1)) (- 1) 10000 =
     Inr \<lparr>an_depth = 0, an_nodeCount = 0, an_type = ''number'', hasCircularReferences = False\<rparr>"
    by (simp add: analyzeJsonStructure_num_negative)
  from 1 2 3 show ?thesis by simp
qed

lemma selfArray_analysis:
  "analyzeJsonStructure selfArray (VRef 0) (Suc md) (Suc (Suc mn)) =
     Inr \<lparr>an_depth = 1, an_nodeCount = 2, an_type = ''array'', hasCircularReferences = False\<rparr>"
  using selfArray_traverse [of md mn]
  by (simp add: analyzeJsonStructure_def) (simp add: selfArray_def deref_def)

text \<open>
  Claim C3 (as amended). On every value graph, with or without a cycle, in which no
  object has a member named \<^verbatim>\<open>hasOwnProperty\<close>, the analyzer returns; whenever it returns,
  the node count is at most \<open>maxNodes\<close> and \<open>hasCircularReferences\<close> is false. For the array
  whose only element is the array itself, with budgets of at least 1 level and 2 nodes,
  it returns depth 1, node count 2 and \<open>hasCircularReferences = false\<close>. With budgets that
  are arbitrary finite numbers the analyzer returns on such a graph as well, and the
  flag is false. (That the function is total is part of its definition: the recursion
  is accepted with the measure \<open>maxDepth + 1 - currentDepth\<close>.)
\<close>

theorem analyzeJsonStructure_cycle:
  "(analyzeJsonStructure h data maxDepth maxNodes = Inr r \<longrightarrow>
      \<not> hasCircularReferences r \<and> an_nodeCount r \<le> maxNodes)
 \<and> (\<not> shadowedHeap h \<longrightarrow> (\<exists>r'. analyzeJsonStructure h data maxDepth maxNodes = Inr r'))
 \<and> analyzeJsonStructure selfArray (VRef 0) (Suc md) (Suc (Suc mn)) =
      Inr \<lparr>an_depth = 1, an_nodeCount = 2, an_type = ''array'', hasCircularReferences = False\<rparr>
 \<and> (\<not> shadowedHeap h \<longrightarrow>
      (\<exists>r''. analyzeJsonStructure_num h data D N = Inr r'' \<and> \<not> hasCircularReferences r''))"
proof (intro conjI impI)
  assume "\<not> shadowedHeap h"
  then show "\<exists>r''. analyzeJsonStructure_num h data D N = Inr r'' \<and> \<not> hasCircularReferences r''"
    by (rule analyzeJsonStructure_num_returns)
next
  assume a: "analyzeJsonStructure h data maxDepth maxNodes = Inr r"
  then obtain st where
    t: "traverse h maxDepth maxNodes data 0 \<lparr>nodeCount = 0, depth = 0, visited = {}\<rparr> = Inr st"
    and r: "r = \<lparr>an_depth = depth st, an_nodeCount = nodeCount st,
               an_type = getJsonTypeAt h data, hasCircularReferences = False\<rparr>"
    by (auto simp: analyzeJsonStructure_def split: sum.splits)
  from r show "\<not> hasCircularReferences r" by simp
  from traverse_within_budgets [OF t] r show "an_nodeCount r \<le> maxNodes" by simp
next
  assume ns: "\<not> shadowedHeap h"
  show "\<exists>r'. analyzeJsonStructure h data maxDepth maxNodes = Inr r'"
  proof (cases "traverse h maxDepth maxNodes data 0 \<lparr>nodeCount = 0, depth = 0, visited = {}\<rparr>")
    case (Inl e)
    from traverse_error [OF this] ns show ?thesis by simp
  next
    case (Inr st)
    then show ?thesis by (simp add: analyzeJsonStructure_def)
  qed
next
  show "analyzeJsonStructure selfArray (VRef 0) (Suc md) (Suc (Suc mn)) =
      Inr \<lparr>an_depth = 1, an_nodeCount = 2, an_type = ''array'', hasCircularReferences = False\<rparr>"
    by (rule selfArray_analysis)
qed

text \<open>The theorem at the self-referential array, with the default budgets.\<close>

theorem analyzeJsonStructure_cycle_witness:
  "\<not> shadowedHeap selfArray
 \<and> analyzeJsonStructure selfArray (VRef 0) 100 10000 =
      Inr \<lparr>an_depth = 1, an_nodeCount = 2, an_type = ''array'', hasCircularReferences = False\<rparr>
 \<and> \<not> hasCircularReferences
        \<lparr>an_depth = 1, an_nodeCount = 2, an_type = ''array'', hasCircularReferences = False\<rparr>
 \<and> an_nodeCount
        \<lparr>an_depth = 1, an_nodeCount = 2, an_type = ''array'', hasCircularReferences = False\<rparr> \<le> 10000"
proof -
  have n: "\<not> shadowedHeap selfArray" by (simp add: shadowedHeap_def selfArray_def)
  have e: "analyzeJsonStructure selfArray (VRef 0) 100 10000 =
      Inr \<lparr>an_depth = 1, an_nodeCount = 2, an_type = ''array'', hasCircularReferences = False\<rparr>"
    using analyzeJsonStructure_cycle [of selfArray "VRef 0" 100 10000 "\<lparr>an_depth = 1, an_nodeCount = 2, an_type = ''array'', hasCircularReferences = False\<rparr>" 99 9998 100 10000] by simp
  from analyzeJsonStructure_cycle [of selfArray "VRef 0" 100 10000
      "\<lparr>an_depth = 1, an_nodeCount = 2, an_type = ''array'', hasCircularReferences = False\<rparr>" 99 9998
      100 10000]
    n e
  show ?thesis by simp
qed

text \<open>
  The claim as stated fails at the self-referential array: the flag that the analyzer
  returns there is false.
\<close>

theorem analyzeJsonStructure_cycle_counterexample:
  "analyzeJsonStructure selfArray (VRef 0) 100 10000 =
      Inr \<lparr>an_depth = 1, an_nodeCount = 2, an_type = ''array'', hasCircularReferences = False\<rparr>
 \<and> hasCircularReferences
        \<lparr>an_depth = 1, an_nodeCount = 2, an_type = ''array'', hasCircularReferences = False\<rparr> = False"
  using selfArray_analysis [of 99 9998] by simp

text \<open>
  Claim C7 (as amended). For a fixed value graph and a fixed \<open>maxDepth\<close>, and budgets
  \<open>m \<le> m'\<close>: when the analyzer returns for both, the node count for \<open>m\<close> is at most the
  node count for \<open>m'\<close>; when the node count for \<open>m\<close> is below \<open>m\<close>, the analyzer returns the
  same result for \<open>m'\<close>; and when it throws for \<open>m\<close>, it throws the same for \<open>m'\<close>. For a
  parsed document without a member named \<^verbatim>\<open>hasOwnProperty\<close> the node count is the smaller
  of the budget and the number of nodes at nesting level at most \<open>maxDepth\<close>; that number
  is at most the total number of nodes, and equal to it exactly when the document is not
  deeper than \<open>maxDepth\<close>. The first three statements hold as well for budgets \<open>q \<le> q'\<close>
  that are arbitrary finite numbers.
\<close>

theorem analyzeJsonStructure_budget_monotone:
  "m \<le> m' \<Longrightarrow>
     (analyzeJsonStructure h data maxDepth m = Inr r \<and>
      analyzeJsonStructure h data maxDepth m' = Inr r' \<longrightarrow> an_nodeCount r \<le> an_nodeCount r')
   \<and> (analyzeJsonStructure h data maxDepth m = Inr r \<and> an_nodeCount r < m \<longrightarrow>
        analyzeJsonStructure h data maxDepth m' = Inr r)
   \<and> (analyzeJsonStructure h data maxDepth m = Inl e \<longrightarrow>
        analyzeJsonStructure h data maxDepth m' = Inl e)
   \<and> (\<not> shadowedDoc t \<longrightarrow>
        (\<exists>an. analyzeTree t maxDepth m = Inr an
            \<and> an_nodeCount an = min m (visitCount maxDepth 0 t)))
   \<and> visitCount maxDepth 0 t \<le> nodeTotal t
   \<and> (visitCount maxDepth 0 t = nodeTotal t) = (height t \<le> maxDepth)
   \<and> (q \<le> q' \<longrightarrow>
        (analyzeJsonStructure_num h data D q = Inr a \<and>
         analyzeJsonStructure_num h data D q' = Inr a' \<longrightarrow> an_nodeCount a \<le> an_nodeCount a')
      \<and> (analyzeJsonStructure_num h data D q = Inr a \<and> of_nat (an_nodeCount a) < q \<longrightarrow>
           analyzeJsonStructure_num h data D q' = Inr a)
      \<and> (analyzeJsonStructure_num h data D q = Inl e \<longrightarrow>
           analyzeJsonStructure_num h data D q' = Inl e))"
proof -
  assume mm: "m \<le> m'"
  note general = analyzeJsonStructure_agree [OF mm, of h data maxDepth r r' e]
  have tree: "\<not> shadowedDoc t \<longrightarrow>
        (\<exists>an. analyzeTree t maxDepth m = Inr an
            \<and> an_nodeCount an = min m (visitCount maxDepth 0 t))"
    using analyzeTree_nodeCount by blast
  have total: "(visitCount maxDepth 0 t = nodeTotal t) = (height t \<le> maxDepth)"
    using visitCount_total(1) [of 0 t maxDepth] visitCount_total_only(1) [of maxDepth 0 t]
    by auto
  have num: "q \<le> q' \<longrightarrow>
        (analyzeJsonStructure_num h data D q = Inr a \<and>
         analyzeJsonStructure_num h data D q' = Inr a' \<longrightarrow> an_nodeCount a \<le> an_nodeCount a')
      \<and> (analyzeJsonStructure_num h data D q = Inr a \<and> of_nat (an_nodeCount a) < q \<longrightarrow>
           analyzeJsonStructure_num h data D q' = Inr a)
      \<and> (analyzeJsonStructure_num h data D q = Inl e \<longrightarrow>
           analyzeJsonStructure_num h data D q' = Inl e)"
    using analyzeJsonStructure_num_agree [of q q' h data D a a' e] by blast
  from general tree visitCount_le_total(1) [of maxDepth 0 t] total num show ?thesis by blast
qed

lemma exampleDoc_budget4:
  "analyzeTree exampleDoc 100 4 =
     Inr \<lparr>an_depth = 2, an_nodeCount = 4, an_type = ''object'', hasCircularReferences = False\<rparr>"
  by (simp add: analyzeTree_def exampleDoc_alloc analyzeJsonStructure_def traverse_eval hasOwn_def)

lemma exampleDoc_budget6:
  "analyzeTree exampleDoc 100 6 =
     Inr \<lparr>an_depth = 3, an_nodeCount = 5, an_type = ''object'', hasCircularReferences = False\<rparr>"
  by (simp add: analyzeTree_def exampleDoc_alloc analyzeJsonStructure_def traverse_eval hasOwn_def)

text \<open>
  The document \<^verbatim>\<open>{"a":[1,{"b":2}]}\<close>, 5 nodes: the budgets 3, 4, 6 and 10000 give the
  node counts 3, 4, 5 and 5.
\<close>

theorem analyzeJsonStructure_budget_monotone_witness:
  "(3::nat) \<le> 4 \<and> (6::nat) \<le> 10000
 \<and> analyzeTree exampleDoc 100 3 =
     Inr \<lparr>an_depth = 2, an_nodeCount = 3, an_type = ''object'', hasCircularReferences = False\<rparr>
 \<and> analyzeTree exampleDoc 100 4 =
     Inr \<lparr>an_depth = 2, an_nodeCount = 4, an_type = ''object'', hasCircularReferences = False\<rparr>
 \<and> analyzeTree exampleDoc 100 6 =
     Inr \<lparr>an_depth = 3, an_nodeCount = 5, an_type = ''object'', hasCircularReferences = False\<rparr>
 \<and> analyzeTree exampleDoc 100 10000 =
     Inr \<lparr>an_depth = 3, an_nodeCount = 5, an_type = ''object'', hasCircularReferences = False\<rparr>"
proof -
  let ?h = "[PlainObj [(''b'', VNum (Num 2))], ArrayObj [VNum (Num 1), VRef 0], PlainObj [(''a'', VRef 1)]]"
  let ?r = "\<lparr>an_depth = 3, an_nodeCount = 5, an_type = ''object'', hasCircularReferences = False\<rparr>"
  have 6: "analyzeJsonStructure ?h (VRef 2) 100 6 = Inr ?r"
    using exampleDoc_budget6 by (simp add: analyzeTree_def exampleDoc_alloc)
  have "(6::nat) \<le> 10000" by simp
  from analyzeJsonStructure_budget_monotone
         [OF this, of ?h "VRef 2" 100 ?r ?r "TypeError []" exampleDoc 6 10000 100 ?r ?r] 6
  have "analyzeJsonStructure ?h (VRef 2) 100 10000 = Inr ?r" by simp
  then have "analyzeTree exampleDoc 100 10000 = Inr ?r"
    by (simp add: analyzeTree_def exampleDoc_alloc)
  with exampleDoc_budget3 exampleDoc_budget4 exampleDoc_budget6 show ?thesis by simp
qed

text \<open>
  The stable node count is not the total number of nodes when the document is deeper
  than \<open>maxDepth\<close>: \<^verbatim>\<open>[[1]]\<close> has 3 nodes, and with \<open>maxDepth = 0\<close> the node count is 1
  for the budget 3 and for every larger one.
\<close>

theorem analyzeJsonStructure_budget_monotone_counterexample:
  "nodeTotal (JArr [JArr [JNum (Num 1)]]) = 3
 \<and> analyzeTree (JArr [JArr [JNum (Num 1)]]) 0 3 =
     Inr \<lparr>an_depth = 0, an_nodeCount = 1, an_type = ''array'', hasCircularReferences = False\<rparr>
 \<and> analyzeTree (JArr [JArr [JNum (Num 1)]]) 0 10000 =
     Inr \<lparr>an_depth = 0, an_nodeCount = 1, an_type = ''array'', hasCircularReferences = False\<rparr>"
  by (simp add: analyzeTree_def analyzeJsonStructure_def traverse_eval hasOwn_def)

subsection \<open>The search on trees and on object graphs\<close>














subsection \<open>The parser\<close>

text \<open>The two limit tests of the parser never succeed.\<close>

lemma analyzeTree_within_budgets:
  "analyzeTree parsed maxDepth maxNodes = Inr an \<Longrightarrow>
   an_nodeCount an \<le> maxNodes \<and> an_depth an \<le> maxDepth"
proof -
  assume a: "analyzeTree parsed maxDepth maxNodes = Inr an"
  obtain v h where vh: "alloc parsed [] = (v, h)" by (cases "alloc parsed []")
  with a have "analyzeJsonStructure h v maxDepth maxNodes = Inr an" by (simp add: analyzeTree_def)
  then obtain st where
    t: "traverse h maxDepth maxNodes v 0 \<lparr>nodeCount = 0, depth = 0, visited = {}\<rparr> = Inr st"
    and r: "an = \<lparr>an_depth = depth st, an_nodeCount = nodeCount st,
               an_type = getJsonTypeAt h v, hasCircularReferences = False\<rparr>"
    by (auto simp: analyzeJsonStructure_def split: sum.splits)
  from traverse_within_budgets [OF t] r show ?thesis by simp
qed

lemma parse_invalid:
  "\<not> isValidJsonSyntax hst jsonString \<Longrightarrow>
   parseJsonString hst jsonString opts =
     \<lparr>r_data = JNull,
      r_metadata = \<lparr>md_size = length jsonString, md_depth = 0, md_nodeCount = 0,
                    md_type = ''unknown'', md_isValid = False\<rparr>,
      r_errors = [''Invalid JSON syntax''], r_warnings = []\<rparr>"
  by (simp add: parseJsonString_def)

lemma parse_syntax_error:
  "isValidJsonSyntax hst jsonString \<Longrightarrow> JSON_parse hst jsonString = Inl m \<Longrightarrow>
   parseJsonString hst jsonString opts =
     \<lparr>r_data = JNull,
      r_metadata = \<lparr>md_size = length jsonString, md_depth = 0, md_nodeCount = 0,
                    md_type = ''unknown'', md_isValid = False\<rparr>,
      r_errors = [''JSON Parse Error: '' @ m], r_warnings = []\<rparr>"
  by (simp add: parseJsonString_def)

lemma parse_analysis_error:
  "isValidJsonSyntax hst jsonString \<Longrightarrow> JSON_parse hst jsonString = Inr v \<Longrightarrow>
   budgetOf opts = (md, mn, strict) \<Longrightarrow> analyzeTree v md mn = Inl e \<Longrightarrow>
   parseJsonString hst jsonString opts =
     \<lparr>r_data = v,
      r_metadata = \<lparr>md_size = length jsonString, md_depth = 0, md_nodeCount = 0,
                    md_type = ''unknown'', md_isValid = True\<rparr>,
      r_errors = [''JSON Parse Error: '' @ message e], r_warnings = []\<rparr>"
  by (simp add: parseJsonString_def budgetOf_def)

lemma parse_analysed:
  "isValidJsonSyntax hst jsonString \<Longrightarrow> JSON_parse hst jsonString = Inr v \<Longrightarrow>
   budgetOf opts = (md, mn, strict) \<Longrightarrow> analyzeTree v md mn = Inr an \<Longrightarrow>
   parseJsonString hst jsonString opts =
     \<lparr>r_data = v,
      r_metadata = \<lparr>md_size = length jsonString, md_depth = an_depth an,
                    md_nodeCount = an_nodeCount an, md_type = an_type an, md_isValid = True\<rparr>,
      r_errors = [], r_warnings = []\<rparr>"
proof -
  assume a: "isValidJsonSyntax hst jsonString" "JSON_parse hst jsonString = Inr v"
    "budgetOf opts = (md, mn, strict)" "analyzeTree v md mn = Inr an"
  from analyzeTree_within_budgets [OF a(4)]
  have "\<not> md < an_depth an" "\<not> mn < an_nodeCount an" by simp_all
  with a show ?thesis by (simp add: parseJsonString_def budgetOf_def)
qed

lemma parseJsonString_no_warnings:
  "r_warnings (parseJsonString hst jsonString opts) = []"
proof (cases "isValidJsonSyntax hst jsonString")
  case False
  then show ?thesis by (simp add: parse_invalid)
next
  case True
  obtain md mn strict where b: "budgetOf opts = (md, mn, strict)" by (cases "budgetOf opts")
  show ?thesis
  proof (cases "JSON_parse hst jsonString")
    case (Inl m)
    with True show ?thesis by (simp add: parse_syntax_error)
  next
    case (Inr v)
    show ?thesis
    proof (cases "analyzeTree v md mn")
      case (Inl e)
      from parse_analysis_error [OF True Inr b Inl] show ?thesis by simp
    next
      case an: (Inr an)
      from parse_analysed [OF True Inr b an] show ?thesis by simp
    qed
  qed
qed

text \<open>
  What the parser does on a text that the guard accepts and \<^verbatim>\<open>JSON.parse\<close> decodes, when no
  object of the value has a member named \<^verbatim>\<open>hasOwnProperty\<close>; and on a text that
  \<^verbatim>\<open>JSON.parse\<close> rejects.
\<close>

lemma parseJsonString_decoded:
  assumes "JSON_parse hst jsonString = Inr v" and "isValidJsonSyntax hst jsonString"
    and "\<not> shadowedDoc v"
  shows "r_data (parseJsonString hst jsonString opts) = v
       \<and> r_errors (parseJsonString hst jsonString opts) = []
       \<and> md_isValid (r_metadata (parseJsonString hst jsonString opts))"
proof -
  obtain md mn strict where b: "budgetOf opts = (md, mn, strict)" by (cases "budgetOf opts")
  from analyzeTree_returns [OF assms(3)] obtain an where "analyzeTree v md mn = Inr an" by blast
  from parse_analysed [OF assms(2,1) b this] show ?thesis by simp
qed

lemma parseJsonString_rejected:
  assumes "JSON_parse hst jsonString = Inl m"
  shows "r_data (parseJsonString hst jsonString opts) = JNull
       \<and> r_errors (parseJsonString hst jsonString opts) \<noteq> []
       \<and> \<not> md_isValid (r_metadata (parseJsonString hst jsonString opts))"
proof (cases "isValidJsonSyntax hst jsonString")
  case True
  from parse_syntax_error [OF True assms] show ?thesis by simp
next
  case False
  from parse_invalid [OF False] show ?thesis by simp
qed

lemma shadowDoc_analysis:
  "analyzeTree shadowDoc maxDepth (Suc maxNodes) = Inl (TypeError ''obj.hasOwnProperty is not a function'')"
  by (simp add: analyzeTree_def shadowDoc_def analyzeJsonStructure_def traverse_eval hasOwn_def)

lemma trim_plain: "s \<noteq> [] \<Longrightarrow> \<not> isWhiteSpace (hd s) \<Longrightarrow> \<not> isWhiteSpace (last s) \<Longrightarrow> trim s = s"
proof -
  assume a: "s \<noteq> []" "\<not> isWhiteSpace (hd s)" "\<not> isWhiteSpace (last s)"
  from a(1,2) have 1: "dropWhile isWhiteSpace s = s" by (cases s) simp_all
  from a(1,3) have 2: "dropWhile isWhiteSpace (rev s) = rev s"
    by (cases "rev s") (simp_all add: hd_rev [symmetric])
  show ?thesis by (simp add: trim_def 1 2)
qed

text \<open>
  Claim C1 at the text \<^verbatim>\<open>{"hasOwnProperty":1}\<close>, which is valid JSON: the parser stores
  the decoded value and \<open>isValid = true\<close>, then the analyzer throws, and the result has one
  error and the metadata of a failed parse.
\<close>

theorem parseJsonString_shadowed_key:
  "parseJsonString (tableHost [(shadowText, shadowDoc)]) shadowText noOptions =
     \<lparr>r_data = shadowDoc,
      r_metadata = \<lparr>md_size = 20, md_depth = 0, md_nodeCount = 0,
                    md_type = ''unknown'', md_isValid = True\<rparr>,
      r_errors = [''JSON Parse Error: obj.hasOwnProperty is not a function''],
      r_warnings = []\<rparr>"
proof -
  have t: "trim shadowText = shadowText"
    by (rule trim_plain) (simp_all add: shadowText_def isWhiteSpace_def)
  have v: "isValidJsonSyntax (tableHost [(shadowText, shadowDoc)]) shadowText"
    unfolding isValidJsonSyntax_def t by (simp add: tableHost_def) (simp add: shadowText_def)
  have l: "length shadowText = 20" by (simp add: shadowText_def)
  have p: "JSON_parse (tableHost [(shadowText, shadowDoc)]) shadowText = Inr shadowDoc"
    by (simp add: tableHost_def)
  have b: "budgetOf noOptions = (100, 10000, False)" by (simp add: budgetOf_def noOptions_def)
  from parse_analysis_error [OF v p b shadowDoc_analysis [of 100 9999, simplified]] l
  show ?thesis by simp
qed

text \<open>
  Claim C2. The parser appends no warning, whatever the host, the text and the options
  (with budgets that are natural numbers) are. At the text \<^verbatim>\<open>[1,2]\<close>, a document of 3 nodes, with \<open>maxNodes = 2\<close> and
  \<open>strict = true\<close>, it reports the node count 2, no warning, no error, and
  \<open>isValid = true\<close>.
\<close>

theorem parseJsonString_over_budget:
  "r_warnings (parseJsonString hst jsonString opts) = []
 \<and> nodeTotal pairDoc = 3
 \<and> parseJsonString (tableHost [(pairText, pairDoc)]) pairText
       \<lparr>opt_maxDepth = None, opt_maxNodes = Some 2, opt_strict = Some True\<rparr> =
     \<lparr>r_data = pairDoc,
      r_metadata = \<lparr>md_size = 5, md_depth = 1, md_nodeCount = 2,
                    md_type = ''array'', md_isValid = True\<rparr>,
      r_errors = [],
      r_warnings = []\<rparr>"
proof -
  have t: "trim pairText = pairText"
    by (rule trim_plain) (simp_all add: pairText_def isWhiteSpace_def)
  have v: "isValidJsonSyntax (tableHost [(pairText, pairDoc)]) pairText"
    unfolding isValidJsonSyntax_def t by (simp add: tableHost_def) (simp add: pairText_def)
  have a: "analyzeTree pairDoc 100 2 =
     Inr \<lparr>an_depth = 1, an_nodeCount = 2, an_type = ''array'', hasCircularReferences = False\<rparr>"
    by (simp add: analyzeTree_def pairDoc_def analyzeJsonStructure_def traverse_eval)
  have n: "nodeTotal pairDoc = 3" by (simp add: pairDoc_def)
  have l: "length pairText = 5" by (simp add: pairText_def)
  have p: "JSON_parse (tableHost [(pairText, pairDoc)]) pairText = Inr pairDoc"
    by (simp add: tableHost_def)
  have b: "budgetOf \<lparr>opt_maxDepth = None, opt_maxNodes = Some 2, opt_strict = Some True\<rparr>
             = (100, 2, True)" by (simp add: budgetOf_def)
  from parse_analysed [OF v p b a] l n parseJsonString_no_warnings [of hst jsonString opts]
  show ?thesis by simp
qed

end
